theory Spec2Isabelle
  imports Complex_Main "HOL-Library.Word" "HOL-Library.Multiset" "HOL-Library.Log_Nat"
begin

unbundle bit_operations_syntax

section \<open>Numeric conventions\<close>

text \<open>
  A finite C++ \<^verbatim>\<open>float\<close> is modelled by the \<^typ>\<open>real\<close> it denotes. In the resampler, the
  block transform, the regeneration network, the conversions between bytes and
  \<^verbatim>\<open>float\<close> and the blends of \<^verbatim>\<open>sanitize\<close>, every \<^verbatim>\<open>float\<close> operation of the source is the
  exact operation followed by \<open>f32\<close>, the rounding to the nearest binary32 value (ties to
  even, gradual underflow), one rounding per operation in the order of the source: no
  fused multiply-add and no excess precision. Infinities and NaN are outside the model:
  \<open>f32\<close> has no largest exponent, and a statement about values is made where the
  magnitudes stay far below \<open>2 ^ 128\<close>. The bit-depth quantizer is modelled with exact
  operations; what is stated about it (the set of levels, the selection of the threshold)
  does not depend on rounding. \<^verbatim>\<open>std::cos\<close> on \<^verbatim>\<open>float\<close>, whose results the C++ standard
  does not fix, is a parameter \<open>std_cos\<close>. \<^verbatim>\<open>double\<close> values (\<^verbatim>\<open>scaled_dimension\<close>)
  are exact.

  \<^verbatim>\<open>std::size_t\<close> values (sizes, indices, strides) are \<^typ>\<open>nat\<close> and the \<^verbatim>\<open>int32_t\<close>
  and \<^verbatim>\<open>ptrdiff_t\<close> indices of the resampler are \<^typ>\<open>int\<close>, without wrap-around; the 32-bit
  \<^verbatim>\<open>bits\<close> argument and 8-bit samples are words.
\<close>

type_synonym u8 = "8 word"
type_synonym u32 = "32 word"

section \<open>Rounding to binary32\<close>

text \<open>\<^verbatim>\<open>std::nearbyint\<close> in the default rounding mode: to the nearest integer, ties to even.\<close>

definition nearbyint :: "real \<Rightarrow> real" where
  "nearbyint v =
    (let f = \<lfloor>v\<rfloor>; r = v - real_of_int f
     in if r < 1 / 2 then real_of_int f
        else if r > 1 / 2 then real_of_int (f + 1)
        else if even f then real_of_int f else real_of_int (f + 1))"

text \<open>
  The exponent of the binade of \<open>x\<close>, at least \<open>-126\<close> (below \<open>2 ^ -126\<close> the values are
  subnormal): \<open>\<lfloor>log\<^sub>2 \<bar>x\<bar>\<rfloor>\<close>, computed from the bit length of \<open>\<lfloor>\<bar>x\<bar> * 2 ^ 149\<rfloor>\<close>. The
  spacing of the binary32 values in that binade is \<open>f32_ulp x\<close> (24 significant bits), and
  \<open>f32 x\<close> is the multiple of the spacing nearest to \<open>x\<close>, the even one at a tie.
\<close>

definition f32_exponent :: "real \<Rightarrow> int" where
  "f32_exponent x = max (- 126) (bitlen \<lfloor>\<bar>x\<bar> * 2 ^ 149\<rfloor> - 150)"

definition f32_ulp :: "real \<Rightarrow> real" where
  "f32_ulp x = 2 powi (f32_exponent x - 23)"

definition f32 :: "real \<Rightarrow> real" where
  "f32 x = nearbyint (x / f32_ulp x) * f32_ulp x"

section \<open>pixmask/image.h\<close>

datatype PixelType = U8_RGB | U8_RGBA | F32_RGB

text \<open>
  \<^verbatim>\<open>struct Image\<close>: the fields \<^verbatim>\<open>width\<close>, \<^verbatim>\<open>height\<close> and \<^verbatim>\<open>pixels\<close>, prefixed so
  that the parameters of the same names keep theirs.
\<close>

record Image =
  img_width :: nat
  img_height :: nat
  img_pixels :: "real list"

text \<open>
  The memory a \<^verbatim>\<open>CpuImage\<close> points to: an array of bytes for the 8-bit formats, an array
  of \<^verbatim>\<open>float\<close> for \<^verbatim>\<open>F32_RGB\<close>. A byte offset \<open>o\<close> into an array of \<^verbatim>\<open>float\<close> is the
  element \<open>o div 4\<close>. The C++ reinterprets the bytes of a buffer whose kind differs from
  the element type of its descriptor; that is outside this model: there the accessors
  below read 0 and write nothing, and the statements about contents assume the kinds
  match. \<^verbatim>\<open>data == nullptr\<close> is \<open>cpu_data = None\<close>.
\<close>

datatype buffer = U8_buffer "u8 list" | F32_buffer "real list"

text \<open>
  \<^verbatim>\<open>struct CpuImage\<close>: the fields \<^verbatim>\<open>type\<close>, \<^verbatim>\<open>width\<close>, \<^verbatim>\<open>height\<close>, \<^verbatim>\<open>stride_bytes\<close> and
  \<^verbatim>\<open>data\<close>, prefixed.
\<close>

record CpuImage =
  cpu_type :: PixelType
  cpu_width :: nat
  cpu_height :: nat
  cpu_stride_bytes :: nat
  cpu_data :: "buffer option"

fun pixel_channels :: "PixelType \<Rightarrow> nat" where
  "pixel_channels U8_RGB = 3"
| "pixel_channels F32_RGB = 3"
| "pixel_channels U8_RGBA = 4"

fun bytes_per_channel :: "PixelType \<Rightarrow> nat" where
  "bytes_per_channel U8_RGB = 1"
| "bytes_per_channel U8_RGBA = 1"
| "bytes_per_channel F32_RGB = 4"

definition bytes_per_pixel :: "PixelType \<Rightarrow> nat" where
  "bytes_per_pixel t = pixel_channels t * bytes_per_channel t"

definition row_bytes :: "CpuImage \<Rightarrow> nat" where
  "row_bytes img = cpu_width img * bytes_per_pixel (cpu_type img)"

definition read_u8 :: "CpuImage \<Rightarrow> nat \<Rightarrow> u8" where
  "read_u8 img i = (case cpu_data img of Some (U8_buffer bs) \<Rightarrow> bs ! i | _ \<Rightarrow> 0)"

definition write_u8 :: "nat \<Rightarrow> u8 \<Rightarrow> CpuImage \<Rightarrow> CpuImage" where
  "write_u8 i v img =
    (case cpu_data img of
       Some (U8_buffer bs) \<Rightarrow> img\<lparr>cpu_data := Some (U8_buffer (bs[i := v]))\<rparr>
     | _ \<Rightarrow> img)"

definition read_f32 :: "CpuImage \<Rightarrow> nat \<Rightarrow> real" where
  "read_f32 img i = (case cpu_data img of Some (F32_buffer fs) \<Rightarrow> fs ! i | _ \<Rightarrow> 0)"

definition write_f32 :: "nat \<Rightarrow> real \<Rightarrow> CpuImage \<Rightarrow> CpuImage" where
  "write_f32 i v img =
    (case cpu_data img of
       Some (F32_buffer fs) \<Rightarrow> img\<lparr>cpu_data := Some (F32_buffer (fs[i := v]))\<rparr>
     | _ \<Rightarrow> img)"

text \<open>The \<^verbatim>\<open>float\<close> array behind a descriptor (a \<^verbatim>\<open>std::vector<float>\<close> viewed through it).\<close>

definition buffer_floats :: "CpuImage \<Rightarrow> real list" where
  "buffer_floats img = (case cpu_data img of Some (F32_buffer fs) \<Rightarrow> fs | _ \<Rightarrow> [])"

section \<open>common/pixel\_ops.h\<close>

definition kInv255 :: real where
  "kInv255 = f32 (1 / 255)"

definition validate_image :: "CpuImage \<Rightarrow> bool" where
  "validate_image img =
    (let bpp = bytes_per_pixel (cpu_type img)
     in if bpp = 0 then False
        else if cpu_width img = 0 \<or> cpu_height img = 0 then False
        else if cpu_stride_bytes img < row_bytes img then False
        else if cpu_data img = None then False
        else
          let channel_size = bytes_per_channel (cpu_type img)
          in if channel_size = 0 \<or> cpu_stride_bytes img mod channel_size \<noteq> 0 then False
             else True)"

text \<open>\<^verbatim>\<open>std::clamp(v, lo, hi)\<close>.\<close>

definition std_clamp :: "real \<Rightarrow> real \<Rightarrow> real \<Rightarrow> real" where
  "std_clamp v lo hi = (if v < lo then lo else if hi < v then hi else v)"

text \<open>\<^verbatim>\<open>std::round\<close>: to the nearest integer, halves away from zero.\<close>

definition cpp_round :: "real \<Rightarrow> real" where
  "cpp_round v = (if 0 \<le> v then real_of_int \<lfloor>v + 1 / 2\<rfloor> else - real_of_int \<lfloor>- v + 1 / 2\<rfloor>)"

definition float_to_u8 :: "real \<Rightarrow> u8" where
  "float_to_u8 v =
    (let value = std_clamp v 0 1;
         scaled = cpp_round (f32 (value * 255));
         clamped = std_clamp scaled 0 255
     in word_of_int \<lfloor>clamped\<rfloor>)"

text \<open>
  \<^verbatim>\<open>copy_image_bytes\<close>: one \<^verbatim>\<open>memcpy\<close> of \<^verbatim>\<open>row_bytes\<close> bytes per row, element by
  element: bytes between byte buffers, \<^verbatim>\<open>float\<close>s (four bytes each) between \<^verbatim>\<open>float\<close>
  buffers. It is called with \<^verbatim>\<open>src.type == dst.type\<close> only.
\<close>

definition copy_image_bytes :: "CpuImage \<Rightarrow> CpuImage \<Rightarrow> CpuImage" where
  "copy_image_bytes src dst =
    (let row_bytes = row_bytes src
     in fold (\<lambda>y dst.
          if cpu_type src = F32_RGB then
            fold (\<lambda>k. write_f32 (y * cpu_stride_bytes dst div 4 + k)
                        (read_f32 src (y * cpu_stride_bytes src div 4 + k)))
              [0..<row_bytes div 4] dst
          else
            fold (\<lambda>k. write_u8 (y * cpu_stride_bytes dst + k)
                        (read_u8 src (y * cpu_stride_bytes src + k)))
              [0..<row_bytes] dst)
        [0..<cpu_height src] dst)"

text \<open>
  \<^verbatim>\<open>convert_image\<close> returns its result and the destination as it leaves it. The three
  stores of every pixel are in the source's order.
\<close>

definition convert_image :: "CpuImage \<Rightarrow> CpuImage \<Rightarrow> bool \<times> CpuImage" where
  "convert_image src dst =
    (if \<not> validate_image src \<or> \<not> validate_image dst then (False, dst)
     else if cpu_width src \<noteq> cpu_width dst \<or> cpu_height src \<noteq> cpu_height dst then (False, dst)
     else if cpu_type src = cpu_type dst then (True, copy_image_bytes src dst)
     else
       (case cpu_type src of
          U8_RGB \<Rightarrow>
            if cpu_type dst \<noteq> F32_RGB then (False, dst)
            else
              (True,
               fold (\<lambda>y. fold (\<lambda>x dst.
                   let src_row = y * cpu_stride_bytes src;
                       dst_row = y * cpu_stride_bytes dst div 4;
                       src_index = x * 3;
                       dst_index = x * 3;
                       dst = write_f32 (dst_row + dst_index + 0)
                               (f32 (real (unat (read_u8 src (src_row + src_index + 0))) * kInv255)) dst;
                       dst = write_f32 (dst_row + dst_index + 1)
                               (f32 (real (unat (read_u8 src (src_row + src_index + 1))) * kInv255)) dst;
                       dst = write_f32 (dst_row + dst_index + 2)
                               (f32 (real (unat (read_u8 src (src_row + src_index + 2))) * kInv255)) dst
                   in dst)
                 [0..<cpu_width src])
               [0..<cpu_height src] dst)
        | U8_RGBA \<Rightarrow>
            if cpu_type dst \<noteq> F32_RGB then (False, dst)
            else
              (True,
               fold (\<lambda>y. fold (\<lambda>x dst.
                   let src_row = y * cpu_stride_bytes src;
                       dst_row = y * cpu_stride_bytes dst div 4;
                       src_index = x * 4;
                       dst_index = x * 3;
                       dst = write_f32 (dst_row + dst_index + 0)
                               (f32 (real (unat (read_u8 src (src_row + src_index + 0))) * kInv255)) dst;
                       dst = write_f32 (dst_row + dst_index + 1)
                               (f32 (real (unat (read_u8 src (src_row + src_index + 1))) * kInv255)) dst;
                       dst = write_f32 (dst_row + dst_index + 2)
                               (f32 (real (unat (read_u8 src (src_row + src_index + 2))) * kInv255)) dst
                   in dst)
                 [0..<cpu_width src])
               [0..<cpu_height src] dst)
        | F32_RGB \<Rightarrow>
            (case cpu_type dst of
               U8_RGB \<Rightarrow>
                 (True,
                  fold (\<lambda>y. fold (\<lambda>x dst.
                      let src_row = y * cpu_stride_bytes src div 4;
                          dst_row = y * cpu_stride_bytes dst;
                          src_index = x * 3;
                          dst_index = x * 3;
                          dst = write_u8 (dst_row + dst_index + 0)
                                  (float_to_u8 (read_f32 src (src_row + src_index + 0))) dst;
                          dst = write_u8 (dst_row + dst_index + 1)
                                  (float_to_u8 (read_f32 src (src_row + src_index + 1))) dst;
                          dst = write_u8 (dst_row + dst_index + 2)
                                  (float_to_u8 (read_f32 src (src_row + src_index + 2))) dst
                      in dst)
                    [0..<cpu_width src])
                  [0..<cpu_height src] dst)
             | U8_RGBA \<Rightarrow>
                 (True,
                  fold (\<lambda>y. fold (\<lambda>x dst.
                      let src_row = y * cpu_stride_bytes src div 4;
                          dst_row = y * cpu_stride_bytes dst;
                          src_index = x * 3;
                          dst_index = x * 4;
                          dst = write_u8 (dst_row + dst_index + 0)
                                  (float_to_u8 (read_f32 src (src_row + src_index + 0))) dst;
                          dst = write_u8 (dst_row + dst_index + 1)
                                  (float_to_u8 (read_f32 src (src_row + src_index + 1))) dst;
                          dst = write_u8 (dst_row + dst_index + 2)
                                  (float_to_u8 (read_f32 src (src_row + src_index + 2))) dst;
                          dst = write_u8 (dst_row + dst_index + 3) 255 dst
                      in dst)
                    [0..<cpu_width src])
                  [0..<cpu_height src] dst)
             | F32_RGB \<Rightarrow> (False, dst))))"

section \<open>cpu/bitdepth.cpp\<close>

definition kBayer8x8 :: "nat list list" where
  "kBayer8x8 =
    [[0, 48, 12, 60, 3, 51, 15, 63],
     [32, 16, 44, 28, 35, 19, 47, 31],
     [8, 56, 4, 52, 11, 59, 7, 55],
     [40, 24, 36, 20, 43, 27, 39, 23],
     [2, 50, 14, 62, 1, 49, 13, 61],
     [34, 18, 46, 30, 33, 17, 45, 29],
     [10, 58, 6, 54, 9, 57, 5, 53],
     [42, 26, 38, 22, 41, 25, 37, 21]]"

definition kInvBayerScale :: real where
  "kInvBayerScale = 1 / 64"

text \<open>\<^verbatim>\<open>sanitize_bits\<close>: the three \<^verbatim>\<open>if\<close> statements in the source's order.\<close>

definition sanitize_bits :: "u32 \<Rightarrow> u32" where
  "sanitize_bits bits =
    (let b1 = (if bits = 0 then 6 else bits);
         b2 = (if b1 < 1 then 1 else b1);
         b3 = (if b2 > 8 then 8 else b2)
     in b3)"

definition clamp01 :: "real \<Rightarrow> real" where
  "clamp01 v = (if v < 0 then 0 else if v > 1 then 1 else v)"

text \<open>
  The threshold of the dither matrix at \<^verbatim>\<open>(matrix_y, matrix_x)\<close>:
  \<^verbatim>\<open>(static_cast<float>(kBayer8x8[matrix_y][matrix_x]) + 0.5f) * kInvBayerScale\<close>.
\<close>

definition bayer_threshold :: "nat \<Rightarrow> nat \<Rightarrow> real" where
  "bayer_threshold matrix_y matrix_x =
    (real (kBayer8x8 ! matrix_y ! matrix_x) + 0.5) * kInvBayerScale"

text \<open>
  The body of the innermost loop of \<^verbatim>\<open>quantize_in_place\<close>: the new value of one
  sample, from \<^verbatim>\<open>levels\<close>, \<^verbatim>\<open>max_level\<close>, \<^verbatim>\<open>inv_levels_minus_one\<close>, the pixel's
  threshold and the old value.
\<close>

definition quantize_value :: "u32 \<Rightarrow> int \<Rightarrow> real \<Rightarrow> real \<Rightarrow> real \<Rightarrow> real" where
  "quantize_value levels max_level inv_levels_minus_one threshold v =
    (let clamped = clamp01 v;
         scaled = clamped * real (unat levels);
         biased = scaled + threshold - 0.5;
         quantized0 = \<lfloor>biased\<rfloor>;
         quantized = (if quantized0 < 0 then 0
                      else if quantized0 > max_level then max_level else quantized0)
     in if max_level > 0 then real_of_int quantized * inv_levels_minus_one else 0)"

text \<open>The loop over the channels of pixel \<^verbatim>\<open>(x, y)\<close>.\<close>

definition quantize_pixel ::
  "u32 \<Rightarrow> int \<Rightarrow> real \<Rightarrow> nat \<Rightarrow> nat \<Rightarrow> real \<Rightarrow> nat \<Rightarrow> real list \<Rightarrow> real list" where
  "quantize_pixel levels max_level inv_lm1 channels row_offset threshold x data =
    fold (\<lambda>c d.
        let idx = row_offset + x * channels + c
        in d[idx := quantize_value levels max_level inv_lm1 threshold (d ! idx)])
      [0..<channels] data"

text \<open>The loop over the pixels of row \<^verbatim>\<open>y\<close>.\<close>

definition quantize_row ::
  "u32 \<Rightarrow> int \<Rightarrow> real \<Rightarrow> nat \<Rightarrow> nat \<Rightarrow> nat \<Rightarrow> real list \<Rightarrow> real list" where
  "quantize_row levels max_level inv_lm1 width channels y data =
    (let row_offset = y * width * channels;
         matrix_y = y AND 7
     in fold (\<lambda>x d.
          let matrix_x = x AND 7;
              threshold = bayer_threshold matrix_y matrix_x
          in quantize_pixel levels max_level inv_lm1 channels row_offset threshold x d)
        [0..<width] data)"

text \<open>
  \<^verbatim>\<open>quantize_in_place\<close>. The array \<^verbatim>\<open>data\<close> is the list of its
  \<^verbatim>\<open>width * height * channels\<close> samples; the function returns the array as the
  C++ leaves it.
\<close>

definition quantize_in_place ::
  "real list \<Rightarrow> nat \<Rightarrow> nat \<Rightarrow> nat \<Rightarrow> u32 \<Rightarrow> real list" where
  "quantize_in_place data width height channels bits =
    (if width = 0 \<or> height = 0 \<or> channels = 0 then data
     else
       let sanitized_bits = sanitize_bits bits;
           levels = push_bit (unat sanitized_bits) (1 :: u32);
           max_level = sint (levels - 1);
           inv_levels_minus_one = (if max_level > 0 then 1 / real_of_int max_level else 0)
       in fold (quantize_row levels max_level inv_levels_minus_one width channels)
            [0..<height] data)"

definition infer_channels :: "Image \<Rightarrow> nat" where
  "infer_channels img =
    (if img_width img = 0 \<or> img_height img = 0 then 0
     else
       let pixels_count = img_width img * img_height img
       in if pixels_count = 0 then 0
          else if img_pixels img = [] \<or> length (img_pixels img) mod pixels_count \<noteq> 0
          then 0
          else length (img_pixels img) div pixels_count)"

definition quantize_bitdepth :: "Image \<Rightarrow> u32 \<Rightarrow> Image" where
  "quantize_bitdepth img bits =
    (let channels = infer_channels img
     in if channels = 0 then img
        else img\<lparr>img_pixels :=
               quantize_in_place (img_pixels img) (img_width img) (img_height img)
                 channels bits\<rparr>)"

section \<open>common/thread\_pool.cpp: the chunks of parallel\_for\<close>

text \<open>
  The \<^verbatim>\<open>while\<close> loop of \<^verbatim>\<open>parallel_for_impl\<close> that cuts \<^verbatim>\<open>[chunk_begin, end)\<close> into
  chunks and enqueues them: the list of the chunks \<^verbatim>\<open>(chunk_begin, chunk_end)\<close> in the
  order of their submission. The source reaches the loop with \<^verbatim>\<open>chunk_size >= 1\<close> only;
  the guard \<open>chunk_size = 0\<close> makes the model total.
\<close>

function chunk_loop :: "nat \<Rightarrow> nat \<Rightarrow> nat \<Rightarrow> (nat \<times> nat) list" where
  "chunk_loop chunk_begin end chunk_size =
    (if chunk_size = 0 then []
     else if chunk_begin < end then
       (let chunk_end = min end (chunk_begin + chunk_size)
        in (chunk_begin, chunk_end) # chunk_loop chunk_end end chunk_size)
     else [])"
  by pat_completeness auto
termination
  by (relation "measure (\<lambda>(chunk_begin, end, chunk_size). end - chunk_begin)") auto

declare chunk_loop.simps [simp del]

text \<open>
  \<^verbatim>\<open>parallel_for_impl\<close>, as the list of the chunks on which \<^verbatim>\<open>chunk_fn\<close> is called:
  none for an empty range, the whole range inline when there is at most one worker or
  the range is not longer than the worker count, the enqueued chunks otherwise.
  \<open>pool_size\<close> is \<^verbatim>\<open>global_pool().size()\<close>.
\<close>

definition parallel_for_impl :: "nat \<Rightarrow> nat \<Rightarrow> nat \<Rightarrow> (nat \<times> nat) list" where
  "parallel_for_impl pool_size begin end =
    (if end \<le> begin then []
     else
       let workers = max 1 pool_size;
           total = end - begin
       in if workers \<le> 1 \<or> total \<le> workers then [(begin, end)]
          else
            let target_chunks = workers * 4;
                chunk_size = max 1 ((total + target_chunks - 1) div target_chunks)
            in chunk_loop begin end chunk_size)"

text \<open>
  \<^verbatim>\<open>parallel_for\<close> (common/thread\_pool.h) on a state \<open>s\<close> that the per-index function
  updates: the chunk function runs \<^verbatim>\<open>fn\<close> on the indices of its chunk in increasing
  order, and the chunks run one after the other in the order of submission. This is
  the sequential schedule; the interleavings of the pool are the subject of the
  transition system below.
\<close>

definition parallel_for :: "nat \<Rightarrow> nat \<Rightarrow> nat \<Rightarrow> (nat \<Rightarrow> 's \<Rightarrow> 's) \<Rightarrow> 's \<Rightarrow> 's" where
  "parallel_for pool_size begin end fn s =
    (if end \<le> begin then s
     else fold (\<lambda>(chunk_begin, chunk_end). fold fn [chunk_begin..<chunk_end])
            (parallel_for_impl pool_size begin end) s)"

section \<open>common/thread\_pool.cpp: the pool as a transition system\<close>

text \<open>
  One call of \<^verbatim>\<open>parallel_for\<close> on the global pool, as an interleaving of atomic steps
  of the calling thread and of the workers. A task is the chunk \<^verbatim>\<open>(chunk_begin,
  chunk_end)\<close> its closure holds; a task that runs is the pair of the next index and the
  chunk's end. \<open>visited\<close> records every call of the per-index function, in the order of
  the calls.

  The caller is in one of these places of \<^verbatim>\<open>parallel_for_impl\<close>:
  \<^item> \<open>Submitting cs\<close>: in the \<^verbatim>\<open>while\<close> loop with the chunks \<open>cs\<close> still to enqueue; with
    \<open>cs = []\<close> it is in \<^verbatim>\<open>pool.wait()\<close>;
  \<^item> \<open>Counted c cs\<close>: inside \<^verbatim>\<open>enqueue\<close> for the chunk \<open>c\<close>, after
    \<^verbatim>\<open>pending_tasks_.fetch_add(1)\<close> and before the push onto a queue;
  \<^item> \<open>Inline cur e\<close>: running \<^verbatim>\<open>chunk_fn(begin, end)\<close> itself, at index \<open>cur\<close>;
  \<^item> \<open>Returned\<close>: \<^verbatim>\<open>parallel_for\<close> has returned.
\<close>

datatype caller_state =
  Submitting "(nat \<times> nat) list"
  | Counted "nat \<times> nat" "(nat \<times> nat) list"
  | Inline nat nat
  | Returned

record pool_state =
  queues :: "(nat \<times> nat) list list"
  running :: "(nat \<times> nat) option list"
  pending_tasks :: nat
  next_queue :: nat
  caller :: caller_state
  visited :: "nat list"

text \<open>
  The atomic steps. Of the caller: the increment of the pending count and the push of
  \<^verbatim>\<open>enqueue\<close>, one call of the per-index function in the inline path, the end of the
  inline path, and the return of \<^verbatim>\<open>wait\<close>. Of worker \<open>i\<close>: \<^verbatim>\<open>try_pop_task\<close> (front of
  its own queue), \<^verbatim>\<open>try_steal_task\<close> (back of the queue of another worker), one call of
  the per-index function in the task it runs, and \<^verbatim>\<open>task_completed\<close>.
\<close>

datatype action =
  Caller_count
  | Caller_push
  | Caller_invoke
  | Caller_finish_inline
  | Caller_wait
  | Worker_pop nat
  | Worker_steal nat nat
  | Worker_invoke nat
  | Worker_complete nat

text \<open>\<open>pool_step a s\<close> is the state after the step \<open>a\<close>, or \<open>None\<close> when \<open>a\<close> is not enabled in \<open>s\<close>.\<close>

fun pool_step :: "action \<Rightarrow> pool_state \<Rightarrow> pool_state option" where
  "pool_step Caller_count s =
    (case caller s of
       Submitting (c # cs) \<Rightarrow>
         Some (s\<lparr>pending_tasks := pending_tasks s + 1, caller := Counted c cs\<rparr>)
     | _ \<Rightarrow> None)"
| "pool_step Caller_push s =
    (case caller s of
       Counted c cs \<Rightarrow>
         (if queues s = [] then None
          else
            let queue_index = next_queue s mod max 1 (length (running s))
            in Some (s\<lparr>queues := (queues s)[queue_index := queues s ! queue_index @ [c]],
                       next_queue := next_queue s + 1,
                       caller := Submitting cs\<rparr>))
     | _ \<Rightarrow> None)"
| "pool_step Caller_invoke s =
    (case caller s of
       Inline cur e \<Rightarrow>
         (if cur < e then Some (s\<lparr>visited := visited s @ [cur], caller := Inline (cur + 1) e\<rparr>)
          else None)
     | _ \<Rightarrow> None)"
| "pool_step Caller_finish_inline s =
    (case caller s of
       Inline cur e \<Rightarrow> (if cur < e then None else Some (s\<lparr>caller := Returned\<rparr>))
     | _ \<Rightarrow> None)"
| "pool_step Caller_wait s =
    (case caller s of
       Submitting [] \<Rightarrow> (if pending_tasks s = 0 then Some (s\<lparr>caller := Returned\<rparr>) else None)
     | _ \<Rightarrow> None)"
| "pool_step (Worker_pop i) s =
    (if i < length (queues s) \<and> i < length (running s) \<and> running s ! i = None then
       (case queues s ! i of
          [] \<Rightarrow> None
        | t # ts \<Rightarrow> Some (s\<lparr>queues := (queues s)[i := ts], running := (running s)[i := Some t]\<rparr>))
     else None)"
| "pool_step (Worker_steal i target) s =
    (if i < length (running s) \<and> target < length (queues s) \<and> target \<noteq> i \<and>
        running s ! i = None \<and> queues s ! target \<noteq> []
     then Some (s\<lparr>queues := (queues s)[target := butlast (queues s ! target)],
                  running := (running s)[i := Some (last (queues s ! target))]\<rparr>)
     else None)"
| "pool_step (Worker_invoke i) s =
    (if i < length (running s) then
       (case running s ! i of
          Some (cur, e) \<Rightarrow>
            (if cur < e then
               Some (s\<lparr>visited := visited s @ [cur],
                       running := (running s)[i := Some (cur + 1, e)]\<rparr>)
             else None)
        | None \<Rightarrow> None)
     else None)"
| "pool_step (Worker_complete i) s =
    (if i < length (running s) then
       (case running s ! i of
          Some (cur, e) \<Rightarrow>
            (if cur < e then None
             else Some (s\<lparr>running := (running s)[i := None],
                          pending_tasks := pending_tasks s - 1\<rparr>))
        | None \<Rightarrow> None)
     else None)"

text \<open>A schedule is a list of steps; it runs while its steps are enabled.\<close>

fun run_actions :: "action list \<Rightarrow> pool_state \<Rightarrow> pool_state option" where
  "run_actions [] s = Some s"
| "run_actions (a # as) s =
    (case pool_step a s of None \<Rightarrow> None | Some s' \<Rightarrow> run_actions as s')"

text \<open>
  The state in which \<^verbatim>\<open>parallel_for(begin, end, fn)\<close> starts on an idle pool of
  \<open>pool_size\<close> workers: the place of the caller follows the tests of \<^verbatim>\<open>parallel_for\<close>
  and \<^verbatim>\<open>parallel_for_impl\<close>.
\<close>

definition pool_init :: "nat \<Rightarrow> nat \<Rightarrow> nat \<Rightarrow> pool_state" where
  "pool_init pool_size begin end =
    \<lparr>queues = replicate pool_size [],
     running = replicate pool_size None,
     pending_tasks = 0,
     next_queue = 0,
     caller =
       (if end \<le> begin then Returned
        else
          let workers = max 1 pool_size;
              total = end - begin
          in if workers \<le> 1 \<or> total \<le> workers then Inline begin end
             else Submitting (parallel_for_impl pool_size begin end)),
     visited = []\<rparr>"

text \<open>
  The indices that are still to be visited: those of the chunks the caller has not
  pushed yet or runs inline, of the queued tasks and of the running tasks.
\<close>

definition chunk_indices :: "nat \<times> nat \<Rightarrow> nat multiset" where
  "chunk_indices c = mset [fst c..<snd c]"

fun caller_left :: "caller_state \<Rightarrow> nat multiset" where
  "caller_left (Submitting cs) = (\<Sum>c\<leftarrow>cs. chunk_indices c)"
| "caller_left (Counted c cs) = chunk_indices c + (\<Sum>c\<leftarrow>cs. chunk_indices c)"
| "caller_left (Inline cur e) = mset [cur..<e]"
| "caller_left Returned = {#}"

definition running_left :: "(nat \<times> nat) option \<Rightarrow> nat multiset" where
  "running_left r = (case r of None \<Rightarrow> {#} | Some t \<Rightarrow> chunk_indices t)"

definition work_left :: "pool_state \<Rightarrow> nat multiset" where
  "work_left s =
    caller_left (caller s) + (\<Sum>q\<leftarrow>queues s. \<Sum>t\<leftarrow>q. chunk_indices t) +
    (\<Sum>r\<leftarrow>running s. running_left r)"

text \<open>The tasks that \<^verbatim>\<open>pending_tasks_\<close> counts.\<close>

definition running_count :: "(nat \<times> nat) option \<Rightarrow> nat" where
  "running_count r = (case r of None \<Rightarrow> 0 | Some t \<Rightarrow> 1)"

fun caller_count :: "caller_state \<Rightarrow> nat" where
  "caller_count (Counted c cs) = 1"
| "caller_count (Submitting cs) = 0"
| "caller_count (Inline cur e) = 0"
| "caller_count Returned = 0"

definition counted_tasks :: "pool_state \<Rightarrow> nat" where
  "counted_tasks s =
    caller_count (caller s) + (\<Sum>q\<leftarrow>queues s. length q) + (\<Sum>r\<leftarrow>running s. running_count r)"

text \<open>
  The invariant of the transition system for the range \<open>[begin, end)\<close>: every index
  of the range is either visited or still to be visited, exactly once in all; the pending
  count is the number of counted tasks; there are as many queues as workers; and in the
  inline path and after the return no task is pending.
\<close>

fun caller_idle :: "caller_state \<Rightarrow> bool" where
  "caller_idle (Inline cur e) = True"
| "caller_idle Returned = True"
| "caller_idle (Submitting cs) = False"
| "caller_idle (Counted c cs) = False"

definition pool_inv :: "nat \<Rightarrow> nat \<Rightarrow> pool_state \<Rightarrow> bool" where
  "pool_inv begin end s =
    (mset (visited s) + work_left s = mset [begin..<end] \<and>
     pending_tasks s = counted_tasks s \<and>
     length (running s) = length (queues s) \<and>
     (caller_idle (caller s) \<longrightarrow> pending_tasks s = 0))"

section \<open>The cubic resampler\<close>

text \<open>
  \<^verbatim>\<open>struct CubicPhase\<close> (pixmask/filters.h), fields \<^verbatim>\<open>indices\<close> and \<^verbatim>\<open>weights\<close>.
\<close>

record CubicPhase =
  phase_indices :: "nat list"
  phase_weights :: "real list"

definition kCubicParameter :: real where
  "kCubicParameter = - 0.5"

text \<open>
  \<^verbatim>\<open>cubic_kernel\<close>: the two polynomials are evaluated from left to right, one rounding
  per operation.
\<close>

definition cubic_kernel :: "real \<Rightarrow> real" where
  "cubic_kernel x0 =
    (let x = \<bar>x0\<bar>;
         x2 = f32 (x * x);
         x3 = f32 (x2 * x)
     in if x < 1 then
          f32 (f32 (f32 (f32 (kCubicParameter + 2) * x3) - f32 (f32 (kCubicParameter + 3) * x2)) + 1)
        else if x < 2 then
          f32 (f32 (f32 (f32 (kCubicParameter * x3) - f32 (f32 (5 * kCubicParameter) * x2)) +
                    f32 (f32 (8 * kCubicParameter) * x)) -
               f32 (4 * kCubicParameter))
        else 0)"

text \<open>The C++ remainder \<^verbatim>\<open>%\<close> on signed integers truncates towards zero.\<close>

definition cpp_rem :: "int \<Rightarrow> int \<Rightarrow> int" where
  "cpp_rem a b = sgn a * (\<bar>a\<bar> mod \<bar>b\<bar>)"

text \<open>\<^verbatim>\<open>std::llround\<close>: to the nearest integer, halves away from zero.\<close>

definition llround :: "real \<Rightarrow> int" where
  "llround v = (if 0 \<le> v then \<lfloor>v + 1 / 2\<rfloor> else - \<lfloor>- v + 1 / 2\<rfloor>)"

definition mirror_index :: "int \<Rightarrow> nat \<Rightarrow> nat" where
  "mirror_index idx len =
    (if len = 0 then 0
     else if len = 1 then 0
     else
       let period = int (len * 2 - 2)
       in if period = 0 then 0
          else
            let idx1 = cpp_rem idx period;
                idx2 = (if idx1 < 0 then idx1 + period else idx1);
                idx3 = (if idx2 \<ge> int len then period - idx2 else idx2)
            in nat idx3)"

text \<open>
  \<^verbatim>\<open>compute_channels\<close> of the resampler and of the block transform (the same text in
  both files).
\<close>

definition compute_channels :: "Image \<Rightarrow> nat" where
  "compute_channels img =
    (if img_width img = 0 \<or> img_height img = 0 then 0
     else
       let count = img_width img * img_height img
       in if count = 0 then 0
          else if length (img_pixels img) mod count \<noteq> 0 then 0
          else length (img_pixels img) div count)"

text \<open>
  The \<^verbatim>\<open>while (current < end)\<close> loop of the downscale branch of
  \<^verbatim>\<open>build_cubic_weight_table\<close>. The loop state is the phase built so far and
  \<^verbatim>\<open>weight_sum\<close>; \<^verbatim>\<open>current\<close> and \<^verbatim>\<open>idx\<close> advance with every iteration. \<^verbatim>\<open>idx\<close> is an
  \<^verbatim>\<open>int32_t\<close>: the increment at \<open>2 ^ 31 - 1\<close> is undefined in C++, and the model leaves
  the loop there.
\<close>

function downscale_loop ::
  "real \<Rightarrow> nat \<Rightarrow> real \<Rightarrow> real \<Rightarrow> int \<Rightarrow> CubicPhase \<times> real \<Rightarrow> CubicPhase \<times> real" where
  "downscale_loop scale src_size end current idx acc =
    (if current < end \<and> idx < 2 ^ 31 - 1 then
       (let next_edge = f32 (real_of_int (idx + 1));
            next = min end next_edge;
            coverage = f32 (next - current);
            acc' = (if coverage > 0 then
                      (let mapped = mirror_index idx src_size;
                           weight = f32 (coverage * scale)
                       in ((fst acc)\<lparr>phase_indices := phase_indices (fst acc) @ [mapped],
                                      phase_weights := phase_weights (fst acc) @ [weight]\<rparr>,
                           f32 (snd acc + weight)))
                    else acc)
        in downscale_loop scale src_size end next (idx + 1) acc')
     else acc)"
  by pat_completeness auto
termination
  by (relation "measure (\<lambda>(scale, src_size, end, current, idx, acc). nat (2 ^ 31 - idx))") auto

declare downscale_loop.simps [simp del]

text \<open>The \<^verbatim>\<open>for (tap = 0; tap < 4; ++tap)\<close> loop of the upscale branch.\<close>

definition upscale_loop :: "nat \<Rightarrow> real \<Rightarrow> int \<Rightarrow> CubicPhase \<times> real" where
  "upscale_loop src_size src_pos base =
    fold (\<lambda>tap acc.
        let idx = base + int tap;
            distance = f32 (src_pos - f32 (real_of_int idx));
            weight = cubic_kernel distance
        in if weight = 0 then acc
           else
             (let mapped = mirror_index idx src_size
              in ((fst acc)\<lparr>phase_indices := phase_indices (fst acc) @ [mapped],
                             phase_weights := phase_weights (fst acc) @ [weight]\<rparr>,
                  f32 (snd acc + weight))))
      [0..<4] (\<lparr>phase_indices = [], phase_weights = []\<rparr>, 0)"

text \<open>
  The end of both branches: the weights are multiplied by the reciprocal of their
  accumulated sum, or, when that sum is zero, the tap at the rounded position \<open>pos\<close>
  (\<^verbatim>\<open>start\<close> in the downscale branch, \<^verbatim>\<open>src_pos\<close> in the upscale branch) is pushed with
  weight 1 after the taps collected so far.
\<close>

definition normalize_or_fallback :: "nat \<Rightarrow> real \<Rightarrow> CubicPhase \<times> real \<Rightarrow> CubicPhase" where
  "normalize_or_fallback src_size pos acc =
    (let phase = fst acc; weight_sum = snd acc
     in if weight_sum \<noteq> 0 then
          (let inv_sum = f32 (1 / weight_sum)
           in phase\<lparr>phase_weights := map (\<lambda>weight. f32 (weight * inv_sum)) (phase_weights phase)\<rparr>)
        else
          (let mapped = mirror_index (llround pos) src_size
           in phase\<lparr>phase_indices := phase_indices phase @ [mapped],
                    phase_weights := phase_weights phase @ [1]\<rparr>))"

text \<open>\<^verbatim>\<open>scale\<close> and \<^verbatim>\<open>inv_scale\<close>: quotients of the sizes converted to \<^verbatim>\<open>float\<close>.\<close>

definition resample_scale :: "nat \<Rightarrow> nat \<Rightarrow> real" where
  "resample_scale src_size dst_size = f32 (f32 (real dst_size) / f32 (real src_size))"

definition resample_inv_scale :: "nat \<Rightarrow> nat \<Rightarrow> real" where
  "resample_inv_scale src_size dst_size = f32 (f32 (real src_size) / f32 (real dst_size))"

text \<open>
  The position whose rounding the fallback tap uses: \<^verbatim>\<open>start\<close> in the downscale branch,
  \<^verbatim>\<open>src_pos\<close> in the upscale branch.
\<close>

definition phase_pos :: "nat \<Rightarrow> nat \<Rightarrow> nat \<Rightarrow> real" where
  "phase_pos src_size dst_size i =
    (let scale = resample_scale src_size dst_size;
         inv_scale = resample_inv_scale src_size dst_size
     in if scale < 1 then f32 (f32 (real i) * inv_scale)
        else f32 (f32 (f32 (f32 (real i) + 0.5) * inv_scale) - 0.5))"

text \<open>
  The taps and their accumulated sum that the body of the
  \<^verbatim>\<open>for (i = 0; i < dst_size; ++i)\<close> loop collects for the destination index \<open>i\<close>, before
  the normalization.
\<close>

definition phase_taps :: "nat \<Rightarrow> nat \<Rightarrow> nat \<Rightarrow> CubicPhase \<times> real" where
  "phase_taps src_size dst_size i =
    (let scale = resample_scale src_size dst_size;
         inv_scale = resample_inv_scale src_size dst_size;
         downscale = scale < 1
     in if downscale then
          (let start = f32 (f32 (real i) * inv_scale);
               end = f32 (start + inv_scale);
               current = start;
               idx = \<lfloor>current\<rfloor>
           in downscale_loop scale src_size end current idx
                (\<lparr>phase_indices = [], phase_weights = []\<rparr>, 0))
        else
          (let src_pos = f32 (f32 (f32 (f32 (real i) + 0.5) * inv_scale) - 0.5);
               base = \<lfloor>src_pos\<rfloor> - 1
           in upscale_loop src_size src_pos base))"

definition build_cubic_weight_table :: "nat \<Rightarrow> nat \<Rightarrow> CubicPhase list" where
  "build_cubic_weight_table src_size dst_size =
    (if src_size = 0 \<or> dst_size = 0 then []
     else
       fold (\<lambda>i table.
           table @ [normalize_or_fallback src_size (phase_pos src_size dst_size i)
                      (phase_taps src_size dst_size i)])
         [0..<dst_size] [])"

text \<open>
  The accumulation over the taps of one phase: \<^verbatim>\<open>accum += weight * value\<close>, where
  \<open>sample tap_index\<close> reads the source sample of the tap's index.
\<close>

definition accumulate_taps :: "CubicPhase \<Rightarrow> (nat \<Rightarrow> real) \<Rightarrow> real" where
  "accumulate_taps phase sample =
    fold (\<lambda>tap accum.
        f32 (accum + f32 (phase_weights phase ! tap * sample (phase_indices phase ! tap))))
      [0..<length (phase_indices phase)] 0"

text \<open>The body of the first \<^verbatim>\<open>parallel_for\<close> of \<^verbatim>\<open>resample_cubic\<close>: row \<open>y\<close> of the horizontal pass.\<close>

definition horizontal_row ::
  "real list \<Rightarrow> nat \<Rightarrow> nat \<Rightarrow> nat \<Rightarrow> CubicPhase list \<Rightarrow> nat \<Rightarrow> real list \<Rightarrow> real list" where
  "horizontal_row src_data input_width new_width channels horizontal_weights y intermediate =
    fold (\<lambda>x. fold (\<lambda>c d.
          d[y * new_width * channels + x * channels + c :=
              accumulate_taps (horizontal_weights ! x)
                (\<lambda>src_idx. src_data ! (y * input_width * channels + src_idx * channels + c))])
        [0..<channels])
      [0..<new_width] intermediate"

text \<open>The body of the second \<^verbatim>\<open>parallel_for\<close>: row \<open>y\<close> of the vertical pass, clamped.\<close>

definition vertical_row ::
  "real list \<Rightarrow> nat \<Rightarrow> nat \<Rightarrow> CubicPhase list \<Rightarrow> nat \<Rightarrow> real list \<Rightarrow> real list" where
  "vertical_row intermediate new_width channels vertical_weights y dst_data =
    fold (\<lambda>x. fold (\<lambda>c d.
          d[y * new_width * channels + x * channels + c :=
              std_clamp
                (accumulate_taps (vertical_weights ! y)
                  (\<lambda>sample_y. intermediate ! (sample_y * new_width * channels + x * channels + c)))
                0 1])
        [0..<channels])
      [0..<new_width] dst_data"

definition resample_cubic :: "nat \<Rightarrow> Image \<Rightarrow> nat \<Rightarrow> nat \<Rightarrow> Image" where
  "resample_cubic pool_size input new_width new_height =
    (let output = \<lparr>img_width = new_width, img_height = new_height, img_pixels = []\<rparr>
     in if new_width = 0 \<or> new_height = 0 then output
        else
          let channels = compute_channels input
          in if channels = 0 then output
             else
               let output = output\<lparr>img_pixels := replicate (new_width * new_height * channels) 0\<rparr>
               in if img_width input = 0 \<or> img_height input = 0 then output
                  else
                    let horizontal_weights = build_cubic_weight_table (img_width input) new_width;
                        vertical_weights = build_cubic_weight_table (img_height input) new_height
                    in if horizontal_weights = [] \<or> vertical_weights = [] then output
                       else
                         let intermediate =
                               parallel_for pool_size 0 (img_height input)
                                 (horizontal_row (img_pixels input) (img_width input) new_width
                                    channels horizontal_weights)
                                 (replicate (new_width * img_height input * channels) 0);
                             dst_data =
                               parallel_for pool_size 0 new_height
                                 (vertical_row intermediate new_width channels vertical_weights)
                                 (img_pixels output)
                         in output\<lparr>img_pixels := dst_data\<rparr>)"

section \<open>cpu/dct8x8.cpp: the block transform\<close>

text \<open>
  \<^verbatim>\<open>kPi\<close> and \<^verbatim>\<open>alpha[0]\<close> are the \<^verbatim>\<open>float\<close> values of their literals,
  \<open>13176795 / 2 ^ 22\<close> and \<open>11863283 / 2 ^ 25\<close>. The tables are built once, from the
  platform's \<^verbatim>\<open>std::cos\<close>.
\<close>

definition kPi :: real where
  "kPi = f32 3.14159265358979323846"

definition build_cos_table :: "(real \<Rightarrow> real) \<Rightarrow> real list list" where
  "build_cos_table std_cos =
    map (\<lambda>u. map (\<lambda>x.
        let angle = f32 (f32 (f32 (kPi / 8) * f32 (real u)) * f32 (f32 (real x) + 0.5))
        in std_cos angle) [0..<8]) [0..<8]"

definition cos_table :: "(real \<Rightarrow> real) \<Rightarrow> real list list" where
  "cos_table std_cos = build_cos_table std_cos"

definition alpha_factors :: "real list" where
  "alpha_factors =
    fold (\<lambda>i alpha. alpha[i := 0.5]) [1..<8] ((replicate 8 0)[0 := f32 0.3535533905932738])"

definition alphas :: "real list" where
  "alphas = alpha_factors"

text \<open>
  \<^verbatim>\<open>fdct_1d\<close> and \<^verbatim>\<open>idct_1d\<close> read the eight values at the pointer \<^verbatim>\<open>in\<close> (the list
  \<open>inp\<close>, which may be longer) and return the eight values written to \<^verbatim>\<open>out\<close>.
\<close>

definition fdct_1d :: "(real \<Rightarrow> real) \<Rightarrow> real list \<Rightarrow> real list" where
  "fdct_1d std_cos inp =
    fold (\<lambda>u out.
        let acc_sum = fold (\<lambda>x acc_sum. f32 (acc_sum + f32 (inp ! x * cos_table std_cos ! u ! x)))
                        [0..<8] 0
        in out[u := f32 (acc_sum * alphas ! u)])
      [0..<8] (replicate 8 0)"

definition idct_1d :: "(real \<Rightarrow> real) \<Rightarrow> real list \<Rightarrow> real list" where
  "idct_1d std_cos inp =
    fold (\<lambda>x out.
        let acc_sum = fold (\<lambda>u acc_sum.
                          f32 (acc_sum + f32 (f32 (alphas ! u * inp ! u) * cos_table std_cos ! u ! x)))
                        [0..<8] 0
        in out[x := acc_sum])
      [0..<8] (replicate 8 0)"

text \<open>
  \<^verbatim>\<open>forward_dct\<close>: the rows of \<^verbatim>\<open>block\<close> into \<^verbatim>\<open>tmp\<close>, then the columns of \<^verbatim>\<open>tmp\<close>
  back into \<^verbatim>\<open>block\<close>. \<^verbatim>\<open>block + y * 8\<close> is \<open>drop (y * 8) block\<close>.
\<close>

definition forward_dct :: "(real \<Rightarrow> real) \<Rightarrow> real list \<Rightarrow> real list" where
  "forward_dct std_cos block =
    (let tmp =
           fold (\<lambda>y tmp.
               let out_row = fdct_1d std_cos (drop (y * 8) block)
               in fold (\<lambda>x tmp. tmp[y * 8 + x := out_row ! x]) [0..<8] tmp)
             [0..<8] (replicate 64 0)
     in fold (\<lambda>x block.
            let col_in = fold (\<lambda>y col_in. col_in[y := tmp ! (y * 8 + x)]) [0..<8] (replicate 8 0);
                col_out = fdct_1d std_cos col_in
            in fold (\<lambda>y block. block[y * 8 + x := col_out ! y]) [0..<8] block)
          [0..<8] block)"

text \<open>\<^verbatim>\<open>inverse_dct\<close>: the columns of \<^verbatim>\<open>block\<close> into \<^verbatim>\<open>tmp\<close>, then the rows back.\<close>

definition inverse_dct :: "(real \<Rightarrow> real) \<Rightarrow> real list \<Rightarrow> real list" where
  "inverse_dct std_cos block =
    (let tmp =
           fold (\<lambda>x tmp.
               let col_in = fold (\<lambda>y col_in. col_in[y := block ! (y * 8 + x)]) [0..<8] (replicate 8 0);
                   col_out = idct_1d std_cos col_in
               in fold (\<lambda>y tmp. tmp[y * 8 + x := col_out ! y]) [0..<8] tmp)
             [0..<8] (replicate 64 0)
     in fold (\<lambda>y block.
            let row_out = idct_1d std_cos (drop (y * 8) tmp)
            in fold (\<lambda>x block. block[y * 8 + x := row_out ! x]) [0..<8] block)
          [0..<8] block)"

text \<open>The C++ division \<^verbatim>\<open>/\<close> on signed integers truncates towards zero.\<close>

definition cpp_div :: "int \<Rightarrow> int \<Rightarrow> int" where
  "cpp_div a b = sgn a * sgn b * (\<bar>a\<bar> div \<bar>b\<bar>)"

text \<open>
  \<^verbatim>\<open>build_quality_table\<close>. The base table \<^verbatim>\<open>kQuantTableQ50\<close> (pixmask/dct\_tables.h, 64
  integers) is a parameter.
\<close>

definition build_quality_table :: "int list \<Rightarrow> int \<Rightarrow> real list" where
  "build_quality_table kQuantTableQ50 quality =
    (let q = max 1 (min quality 100)
     in if q \<ge> 100 then replicate 64 1
        else
          let scaled = (if q < 50 then cpp_div 5000 q else 200 - q * 2);
              table =
                fold (\<lambda>i table.
                    let value0 = cpp_div (kQuantTableQ50 ! i * scaled + 50) 100;
                        value1 = max 1 (min value0 255)
                    in table[i := real_of_int value1])
                  [0..<64] (replicate 64 0)
          in table[0 := 1])"

definition clamp_index :: "nat \<Rightarrow> nat \<Rightarrow> nat" where
  "clamp_index v limit = (if v \<ge> limit then limit - 1 else v)"

text \<open>The loop that quantizes the coefficients of one block (all but the first).\<close>

definition quantize_block :: "real list \<Rightarrow> real list \<Rightarrow> real list" where
  "quantize_block quant_table block =
    fold (\<lambda>i block.
        if i = 0 then block
        else
          let q = quant_table ! i;
              scaled = f32 (block ! i / q);
              quantized = f32 (nearbyint scaled * q)
          in block[i := quantized])
      [0..<64] block"

text \<open>
  The body of the \<^verbatim>\<open>parallel_for\<close> over the tiles: for every channel the tile is
  gathered with clamped source indices, transformed, quantized when \<^verbatim>\<open>quality < 100\<close>,
  transformed back and written to the rows and columns inside the image. The two
  \<^verbatim>\<open>break\<close> statements end their loops at the first index outside the image:
  \<open>takeWhile\<close> on the index list.
\<close>

definition process_tile ::
  "(real \<Rightarrow> real) \<Rightarrow> real list \<Rightarrow> nat \<Rightarrow> nat \<Rightarrow> nat \<Rightarrow> real list \<Rightarrow> int \<Rightarrow> nat \<Rightarrow> nat \<Rightarrow>
     real list \<Rightarrow> real list" where
  "process_tile std_cos src width height channels quant_table quality tiles_x tile_index dst =
    (let tile_y = tile_index div tiles_x;
         tile_x = tile_index mod tiles_x;
         base_x = tile_x * 8;
         base_y = tile_y * 8
     in fold (\<lambda>c dst.
          let block0 =
                fold (\<lambda>yy. fold (\<lambda>xx block.
                    block[yy * 8 + xx :=
                      src ! ((clamp_index (base_y + yy) height * width +
                              clamp_index (base_x + xx) width) * channels + c)])
                  [0..<8])
                [0..<8] (replicate 64 0);
              block1 = forward_dct std_cos block0;
              block2 = (if quality < 100 then quantize_block quant_table block1 else block1);
              block3 = inverse_dct std_cos block2
          in fold (\<lambda>yy. fold (\<lambda>xx dst.
                 dst[((base_y + yy) * width + (base_x + xx)) * channels + c :=
                       block3 ! (yy * 8 + xx)])
               (takeWhile (\<lambda>xx. base_x + xx < width) [0..<8]))
             (takeWhile (\<lambda>yy. base_y + yy < height) [0..<8]) dst)
        [0..<channels] dst)"

definition dct8x8_hf_attenuate ::
  "(real \<Rightarrow> real) \<Rightarrow> int list \<Rightarrow> nat \<Rightarrow> Image \<Rightarrow> int \<Rightarrow> Image" where
  "dct8x8_hf_attenuate std_cos kQuantTableQ50 pool_size input quality =
    (let output = input;
         width = img_width output;
         height = img_height output
     in if width = 0 \<or> height = 0 then output
        else
          let channels = compute_channels output
          in if channels = 0 then output
             else
               let quant_table = build_quality_table kQuantTableQ50 quality;
                   tiles_x = (width + 7) div 8;
                   tiles_y = (height + 7) div 8;
                   tile_count = tiles_x * tiles_y
               in output\<lparr>img_pixels :=
                    parallel_for pool_size 0 tile_count
                      (process_tile std_cos (img_pixels input) width height channels quant_table
                         quality tiles_x)
                      (img_pixels output)\<rparr>)"

section \<open>pixmask/sr\_weights.h\<close>

definition kInputChannels :: nat where "kInputChannels = 3"
definition kUpscaleFactor :: nat where "kUpscaleFactor = 2"
definition kConv1OutChannels :: nat where "kConv1OutChannels = 16"
definition kConv2OutChannels :: nat where "kConv2OutChannels = 16"
definition kConv3OutChannels :: nat where
  "kConv3OutChannels = kInputChannels * kUpscaleFactor * kUpscaleFactor"
definition kKernelSize :: nat where "kKernelSize = 3"

definition conv_weight_count :: "nat \<Rightarrow> nat \<Rightarrow> nat" where
  "conv_weight_count out_channels in_channels =
    out_channels * kKernelSize * kKernelSize * in_channels"

definition conv_index :: "nat \<Rightarrow> nat \<Rightarrow> nat \<Rightarrow> nat \<Rightarrow> nat \<Rightarrow> nat" where
  "conv_index out_channel ky kx in_channel in_channels =
    (((out_channel * kKernelSize) + ky) * kKernelSize + kx) * in_channels + in_channel"

definition make_conv1_weights :: "real list" where
  "make_conv1_weights =
    (let data0 = replicate (conv_weight_count kConv1OutChannels kInputChannels) 0;
         data1 =
           fold (\<lambda>channel data.
               let base = channel * 5
               in data[conv_index (base + 0) 1 1 channel kInputChannels := 1,
                       conv_index (base + 1) 0 1 channel kInputChannels := 1,
                       conv_index (base + 2) 2 1 channel kInputChannels := 1,
                       conv_index (base + 3) 1 0 channel kInputChannels := 1,
                       conv_index (base + 4) 1 2 channel kInputChannels := 1])
             [0..<kInputChannels] data0;
         inv3 = f32 (1 / 3)
     in data1[conv_index 15 1 1 0 kInputChannels := inv3,
              conv_index 15 1 1 1 kInputChannels := inv3,
              conv_index 15 1 1 2 kInputChannels := inv3])"

definition make_conv2_weights :: "real list" where
  "make_conv2_weights =
    fold (\<lambda>channel data. data[conv_index channel 1 1 channel kConv1OutChannels := 1])
      [0..<kConv2OutChannels]
      (replicate (conv_weight_count kConv2OutChannels kConv1OutChannels) 0)"

definition make_conv3_weights :: "real list" where
  "make_conv3_weights =
    (let kMain = f32 1.2;
         kStrong = f32 (- 0.1);
         kWeak = f32 (- 0.05);
         kLumaBlend = f32 0.05;
         strong_pairs = [[1, 3], [1, 4], [2, 3], [2, 4]];
         weak_pairs = [[2, 4], [2, 3], [1, 4], [1, 3]]
     in fold (\<lambda>channel.
          let feature_base = channel * 5
          in fold (\<lambda>orientation data.
               let out_channel = channel * 4 + orientation;
                   center_index = conv_index out_channel 1 1 (feature_base + 0) kConv2OutChannels;
                   data = data[center_index := kMain];
                   data = fold (\<lambda>idx data.
                              data[conv_index out_channel 1 1 (feature_base + idx)
                                     kConv2OutChannels := kStrong])
                            (strong_pairs ! orientation) data;
                   data = fold (\<lambda>idx data.
                              data[conv_index out_channel 1 1 (feature_base + idx)
                                     kConv2OutChannels := kWeak])
                            (weak_pairs ! orientation) data
               in data[conv_index out_channel 1 1 15 kConv2OutChannels := kLumaBlend])
             [0..<4])
        [0..<kInputChannels]
        (replicate (conv_weight_count kConv3OutChannels kConv2OutChannels) 0))"

definition kConv1Weights :: "real list" where "kConv1Weights = make_conv1_weights"
definition kConv1Bias :: "real list" where "kConv1Bias = replicate kConv1OutChannels 0"
definition kConv2Weights :: "real list" where "kConv2Weights = make_conv2_weights"
definition kConv2Bias :: "real list" where "kConv2Bias = replicate kConv2OutChannels 0"
definition kConv3Weights :: "real list" where "kConv3Weights = make_conv3_weights"
definition kConv3Bias :: "real list" where "kConv3Bias = replicate kConv3OutChannels 0"

section \<open>The fixed-weight regeneration network (sr\_lite)\<close>

text \<open>\<^verbatim>\<open>mirror_index\<close> of this file (without the test of a zero period).\<close>

definition sr_mirror_index :: "int \<Rightarrow> nat \<Rightarrow> nat" where
  "sr_mirror_index idx len =
    (if len \<le> 1 then 0
     else
       let period = int (len * 2 - 2);
           value0 = cpp_rem idx period;
           value1 = (if value0 < 0 then value0 + period else value0);
           value2 = (if value1 \<ge> int len then period - value1 else value1)
       in nat value2)"

text \<open>
  The accumulation of one output channel of \<^verbatim>\<open>convolve3x3\<close>: the state is \<^verbatim>\<open>acc\<close> and
  the offset of the pointer \<^verbatim>\<open>kernel\<close> into \<^verbatim>\<open>weights\<close>, advanced by \<^verbatim>\<open>in_channels\<close> after
  every tap.
\<close>

definition convolve_acc ::
  "real list \<Rightarrow> real list \<Rightarrow> real list \<Rightarrow> nat \<Rightarrow> nat \<Rightarrow> nat list \<Rightarrow> nat list \<Rightarrow> nat \<Rightarrow> real" where
  "convolve_acc input weights bias in_row_stride in_channels y_indices x_indices oc =
    fst (fold (\<lambda>ky. fold (\<lambda>kx (acc, kernel).
            let sy = y_indices ! ky;
                row = sy * in_row_stride;
                sx = x_indices ! kx;
                pixel = row + sx * in_channels;
                acc = fold (\<lambda>ic acc. f32 (acc + f32 (weights ! (kernel + ic) * input ! (pixel + ic))))
                        [0..<in_channels] acc
            in (acc, kernel + in_channels))
          [0..<3])
        [0..<3] (bias ! oc, oc * 3 * 3 * in_channels))"

definition convolve3x3 ::
  "nat \<Rightarrow> real list \<Rightarrow> real list \<Rightarrow> nat \<Rightarrow> nat \<Rightarrow> nat \<Rightarrow> nat \<Rightarrow> real list \<Rightarrow> real list \<Rightarrow> bool \<Rightarrow>
     real list" where
  "convolve3x3 pool_size input output width height in_channels out_channels weights bias relu =
    (if width = 0 \<or> height = 0 then output
     else
       let in_row_stride = width * in_channels;
           out_row_stride = width * out_channels
       in parallel_for pool_size 0 height
            (\<lambda>y. let y_indices = [sr_mirror_index (int y - 1) height,
                                   sr_mirror_index (int y) height,
                                   sr_mirror_index (int y + 1) height]
                  in fold (\<lambda>x.
                       let x_indices = [sr_mirror_index (int x - 1) width,
                                        sr_mirror_index (int x) width,
                                        sr_mirror_index (int x + 1) width];
                           out_base = y * out_row_stride + x * out_channels
                       in fold (\<lambda>oc output.
                            let acc0 = convolve_acc input weights bias in_row_stride in_channels
                                         y_indices x_indices oc;
                                acc = (if relu \<and> acc0 < 0 then 0 else acc0)
                            in output[out_base + oc := acc])
                          [0..<out_channels])
                     [0..<width])
            output)"

definition pixel_shuffle_r2 ::
  "nat \<Rightarrow> real list \<Rightarrow> real list \<Rightarrow> nat \<Rightarrow> nat \<Rightarrow> nat \<Rightarrow> real list" where
  "pixel_shuffle_r2 pool_size input output width height channels =
    (if width = 0 \<or> height = 0 then output
     else
       let in_channels = channels * kUpscaleFactor * kUpscaleFactor;
           out_width = width * kUpscaleFactor
       in parallel_for pool_size 0 height
            (\<lambda>y. fold (\<lambda>x.
                 let in_pixel = (y * width + x) * in_channels
                 in fold (\<lambda>c.
                      let base = c * kUpscaleFactor * kUpscaleFactor
                      in fold (\<lambda>sub output.
                           let oy = y * kUpscaleFactor + (sub div kUpscaleFactor);
                               ox = x * kUpscaleFactor + (sub mod kUpscaleFactor);
                               value = std_clamp (input ! (in_pixel + base + sub)) 0 1
                           in output[(oy * out_width + ox) * channels + c := value])
                         [0..<kUpscaleFactor * kUpscaleFactor])
                    [0..<channels])
               [0..<width])
            output)"

definition sr_lite_forward :: "nat \<Rightarrow> real list \<Rightarrow> real list \<Rightarrow> nat \<Rightarrow> nat \<Rightarrow> real list" where
  "sr_lite_forward pool_size input output width height =
    (if width = 0 \<or> height = 0 then output
     else
       let stage1 = replicate (width * height * kConv1OutChannels) 0;
           stage2 = replicate (width * height * kConv2OutChannels) 0;
           stage3 = replicate (width * height * kConv3OutChannels) 0;
           stage1 = convolve3x3 pool_size input stage1 width height kInputChannels
                      kConv1OutChannels kConv1Weights kConv1Bias True;
           stage2 = convolve3x3 pool_size stage1 stage2 width height kConv1OutChannels
                      kConv2OutChannels kConv2Weights kConv2Bias True;
           stage3 = convolve3x3 pool_size stage2 stage3 width height kConv2OutChannels
                      kConv3OutChannels kConv3Weights kConv3Bias False
       in pixel_shuffle_r2 pool_size stage3 output width height kInputChannels)"

text \<open>
  \<^verbatim>\<open>sr_lite_refine\<close> returns its result and the output buffer as it leaves it. Its
  \<^verbatim>\<open>supports_type\<close> accepts the three formats.
\<close>

fun sr_supports_type :: "PixelType \<Rightarrow> bool" where
  "sr_supports_type U8_RGB = True"
| "sr_supports_type U8_RGBA = True"
| "sr_supports_type F32_RGB = True"

definition sr_lite_refine :: "nat \<Rightarrow> CpuImage \<Rightarrow> CpuImage \<Rightarrow> bool \<times> CpuImage" where
  "sr_lite_refine pool_size input output =
    (if \<not> validate_image input \<or> \<not> validate_image output then (False, output)
     else if cpu_width input = 0 \<or> cpu_height input = 0 then (False, output)
     else if cpu_width output \<noteq> cpu_width input * kUpscaleFactor \<or>
             cpu_height output \<noteq> cpu_height input * kUpscaleFactor then (False, output)
     else if \<not> sr_supports_type (cpu_type input) \<or> \<not> sr_supports_type (cpu_type output)
     then (False, output)
     else
       let src_stride = cpu_width input * kInputChannels * 4;
           low_res = replicate (cpu_width input * cpu_height input * kInputChannels) 0;
           low_res_view = \<lparr>cpu_type = F32_RGB, cpu_width = cpu_width input,
                            cpu_height = cpu_height input, cpu_stride_bytes = src_stride,
                            cpu_data = Some (F32_buffer low_res)\<rparr>
       in case convert_image input low_res_view of
            (False, low_res_view) \<Rightarrow> (False, output)
          | (True, low_res_view) \<Rightarrow>
              let low_res = buffer_floats low_res_view;
                  out_width = cpu_width output;
                  out_height = cpu_height output;
                  dst_stride = out_width * kInputChannels * 4;
                  high_res = replicate (out_width * out_height * kInputChannels) 0;
                  high_res = sr_lite_forward pool_size low_res high_res (cpu_width input)
                               (cpu_height input);
                  high_res_view = \<lparr>cpu_type = F32_RGB, cpu_width = out_width,
                                    cpu_height = out_height, cpu_stride_bytes = dst_stride,
                                    cpu_data = Some (F32_buffer high_res)\<rparr>
              in case convert_image high_res_view output of
                   (False, output) \<Rightarrow> (False, output)
                 | (True, output) \<Rightarrow> (True, output))"

section \<open>common/sanitize.cpp\<close>

text \<open>
  \<^verbatim>\<open>to_float_image\<close> returns its result and the image \<^verbatim>\<open>dst\<close> as it leaves it; the
  \<^verbatim>\<open>float\<close> view aliases the pixels of \<^verbatim>\<open>dst\<close>.
\<close>

definition to_float_image :: "CpuImage \<Rightarrow> Image \<Rightarrow> bool \<times> Image" where
  "to_float_image src dst =
    (if \<not> validate_image src then (False, dst)
     else
       let dst = dst\<lparr>img_width := cpu_width src, img_height := cpu_height src\<rparr>;
           channels = 3;
           expected = img_width dst * img_height dst * channels;
           dst = dst\<lparr>img_pixels := replicate expected 0\<rparr>;
           float_view = \<lparr>cpu_type = F32_RGB, cpu_width = img_width dst,
                          cpu_height = img_height dst,
                          cpu_stride_bytes = img_width dst * channels * 4,
                          cpu_data = Some (F32_buffer (img_pixels dst))\<rparr>
       in case convert_image src float_view of
            (ok, float_view) \<Rightarrow> (ok, dst\<lparr>img_pixels := buffer_floats float_view\<rparr>))"

definition from_float_image :: "Image \<Rightarrow> CpuImage \<Rightarrow> bool \<times> CpuImage" where
  "from_float_image src dst =
    (if img_width src \<noteq> cpu_width dst \<or> img_height src \<noteq> cpu_height dst then (False, dst)
     else if img_pixels src = [] then (False, dst)
     else
       let float_view = \<lparr>cpu_type = F32_RGB, cpu_width = img_width src,
                          cpu_height = img_height src,
                          cpu_stride_bytes = img_width src * 3 * 4,
                          cpu_data = Some (F32_buffer (img_pixels src))\<rparr>
       in convert_image float_view dst)"

definition scaled_dimension :: "nat \<Rightarrow> real \<Rightarrow> nat" where
  "scaled_dimension v scale =
    (let scaled = real v * scale;
         rounded = nat (llround scaled)
     in if rounded > 0 then rounded else 1)"

definition sanitize_pixel :: "real \<Rightarrow> real" where
  "sanitize_pixel v = std_clamp v 0 1"

fun supported_type :: "PixelType \<Rightarrow> bool" where
  "supported_type t = (t = U8_RGB \<or> t = F32_RGB)"

text \<open>
  The local variables of \<^verbatim>\<open>sanitize\<close> at the call of \<^verbatim>\<open>from_float_image\<close>:
  \<^verbatim>\<open>working\<close>, \<^verbatim>\<open>low_res\<close> (quantized), \<^verbatim>\<open>filtered\<close> (after the first blend),
  \<^verbatim>\<open>upscaled\<close>, \<^verbatim>\<open>sr_input\<close>, \<^verbatim>\<open>sr_output\<close> as the network leaves it (before the
  final blend overwrites it), and \<^verbatim>\<open>final_image\<close>.
\<close>

record sanitize_trace =
  tr_working :: Image
  tr_low_res :: Image
  tr_filtered :: Image
  tr_upscaled :: Image
  tr_sr_input :: Image
  tr_sr_output :: "real list"
  tr_final_image :: Image

text \<open>The first blend loop: \<^verbatim>\<open>0.4f * filtered + 0.6f * low_res\<close>, clamped, in place.\<close>

definition blend_filtered :: "real list \<Rightarrow> real list \<Rightarrow> real list" where
  "blend_filtered filtered low_res =
    (let filtered_elements = length filtered
     in fold (\<lambda>i filtered.
          let mixed = f32 (f32 (f32 0.4 * filtered ! i) + f32 (f32 0.6 * low_res ! i))
          in filtered[i := sanitize_pixel mixed])
        [0..<filtered_elements] filtered)"

text \<open>The final blend loop, in place in \<^verbatim>\<open>sr_output\<close>.\<close>

definition blend_final :: "real list \<Rightarrow> real list \<Rightarrow> real list \<Rightarrow> nat \<Rightarrow> real list" where
  "blend_final sr_output upscaled working total_elements =
    (let sr_weight = f32 0.15;
         upscaled_weight = f32 0.35;
         original_weight = f32 (f32 (1 - sr_weight) - upscaled_weight)
     in fold (\<lambda>i sr_output.
          let blended = f32 (f32 (f32 (sr_weight * sr_output ! i) +
                                  f32 (upscaled_weight * upscaled ! i)) +
                             f32 (original_weight * working ! i))
          in sr_output[i := sanitize_pixel blended])
        [0..<total_elements] sr_output)"

text \<open>
  \<^verbatim>\<open>sanitize\<close> from the declaration of \<^verbatim>\<open>working\<close> to the construction of
  \<^verbatim>\<open>final_image\<close>: \<open>None\<close> at every \<^verbatim>\<open>return false\<close>. None of these statements writes
  to the caller's output buffer.
\<close>

definition sanitize_stages ::
  "(real \<Rightarrow> real) \<Rightarrow> int list \<Rightarrow> nat \<Rightarrow> CpuImage \<Rightarrow> CpuImage \<Rightarrow> sanitize_trace option" where
  "sanitize_stages std_cos kQuantTableQ50 pool_size input output =
    (case to_float_image input \<lparr>img_width = 0, img_height = 0, img_pixels = []\<rparr> of
       (False, working) \<Rightarrow> None
     | (True, working) \<Rightarrow>
         let down_width = scaled_dimension (img_width working) 0.25;
             down_height = scaled_dimension (img_height working) 0.25;
             low_res = resample_cubic pool_size working down_width down_height
         in if img_pixels low_res = [] then None
            else
              let low_res = quantize_bitdepth low_res 6;
                  filtered = dct8x8_hf_attenuate std_cos kQuantTableQ50 pool_size low_res 60
              in if img_pixels filtered = [] then None
                 else
                   let filtered = filtered\<lparr>img_pixels :=
                                    blend_filtered (img_pixels filtered) (img_pixels low_res)\<rparr>;
                       upscaled = resample_cubic pool_size filtered (cpu_width output)
                                    (cpu_height output)
                   in if img_pixels upscaled = [] then None
                      else
                        let sr_width = cpu_width output div 2;
                            sr_height = cpu_height output div 2
                        in if sr_width = 0 \<or> sr_height = 0 then None
                           else
                             let sr_input = resample_cubic pool_size filtered sr_width sr_height
                             in if img_pixels sr_input = [] then None
                                else
                                  let sr_output = replicate
                                        (cpu_width output * cpu_height output * 3) 0;
                                      sr_input_view =
                                        \<lparr>cpu_type = F32_RGB, cpu_width = sr_width,
                                         cpu_height = sr_height,
                                         cpu_stride_bytes = sr_width * 3 * 4,
                                         cpu_data = Some (F32_buffer (img_pixels sr_input))\<rparr>;
                                      sr_output_view =
                                        \<lparr>cpu_type = F32_RGB, cpu_width = cpu_width output,
                                         cpu_height = cpu_height output,
                                         cpu_stride_bytes = cpu_width output * 3 * 4,
                                         cpu_data = Some (F32_buffer sr_output)\<rparr>
                                  in case sr_lite_refine pool_size sr_input_view sr_output_view of
                                       (False, sr_output_view) \<Rightarrow> None
                                     | (True, sr_output_view) \<Rightarrow>
                                         let sr_output = buffer_floats sr_output_view;
                                             total_elements =
                                               cpu_width output * cpu_height output * 3;
                                             blended = blend_final sr_output
                                               (img_pixels upscaled) (img_pixels working)
                                               total_elements;
                                             final_image =
                                               \<lparr>img_width = cpu_width output,
                                                img_height = cpu_height output,
                                                img_pixels = blended\<rparr>
                                         in Some \<lparr>tr_working = working, tr_low_res = low_res,
                                                  tr_filtered = filtered,
                                                  tr_upscaled = upscaled,
                                                  tr_sr_input = sr_input,
                                                  tr_sr_output = sr_output,
                                                  tr_final_image = final_image\<rparr>)"

text \<open>
  \<^verbatim>\<open>sanitize\<close> returns its result and the caller's output buffer as it leaves it.
  \<open>std_cos\<close> is the platform's cosine, \<open>kQuantTableQ50\<close> the base table of the block
  transform, \<open>pool_size\<close> the size of the global pool.
\<close>

definition sanitize ::
  "(real \<Rightarrow> real) \<Rightarrow> int list \<Rightarrow> nat \<Rightarrow> CpuImage \<Rightarrow> CpuImage \<Rightarrow> bool \<times> CpuImage" where
  "sanitize std_cos kQuantTableQ50 pool_size input output =
    (if \<not> validate_image input \<or> \<not> validate_image output then (False, output)
     else if \<not> supported_type (cpu_type input) \<or> \<not> supported_type (cpu_type output)
     then (False, output)
     else if cpu_width input = 0 \<or> cpu_height input = 0 then (False, output)
     else if cpu_width input \<noteq> cpu_width output \<or> cpu_height input \<noteq> cpu_height output
     then (False, output)
     else if cpu_width output mod 2 \<noteq> 0 \<or> cpu_height output mod 2 \<noteq> 0 then (False, output)
     else
       (case sanitize_stages std_cos kQuantTableQ50 pool_size input output of
          None \<Rightarrow> (False, output)
        | Some tr \<Rightarrow>
            (case from_float_image (tr_final_image tr) output of
               (False, output) \<Rightarrow> (False, output)
             | (True, output) \<Rightarrow> (True, output))))"

text \<open>
  The clamp of the bit depth into \<open>[1, 8]\<close>, as the specification words it; compared with
  \<^verbatim>\<open>sanitize_bits\<close> below.
\<close>

definition spec_clamp_bits :: "u32 \<Rightarrow> u32" where
  "spec_clamp_bits bits = (if bits < 1 then 1 else if bits > 8 then 8 else bits)"

text \<open>
  The new value that \<^verbatim>\<open>quantize_in_place\<close> gives the sample at the flat index \<open>j\<close>, with
  the pixel coordinates recovered from \<open>j\<close>; used to state what the loops write.
\<close>

definition quantize_at ::
  "u32 \<Rightarrow> int \<Rightarrow> real \<Rightarrow> nat \<Rightarrow> nat \<Rightarrow> nat \<Rightarrow> real \<Rightarrow> real" where
  "quantize_at levels max_level inv_lm1 width channels j v =
    quantize_value levels max_level inv_lm1
      (bayer_threshold ((j div (width * channels)) AND 7) (((j div channels) mod width) AND 7)) v"

section \<open>Array writes of a loop\<close>

text \<open>
  \<open>writes_set F S g\<close>: the array transformer \<open>F\<close> keeps the length, replaces the
  element at every index \<open>j\<close> of \<open>S\<close> by \<open>g j\<close> of the old element, and leaves every
  other element as it is.
\<close>

definition writes_set :: "('a list \<Rightarrow> 'a list) \<Rightarrow> nat set \<Rightarrow> (nat \<Rightarrow> 'a \<Rightarrow> 'a) \<Rightarrow> bool" where
  "writes_set F S g =
    (\<forall>d. length (F d) = length d \<and>
       (\<forall>j < length d. F d ! j = (if j \<in> S then g j (d ! j) else d ! j)))"

text \<open>
  An idle pool: every queue is empty, no worker runs a task, no task is pending.
\<close>

definition pool_idle :: "pool_state \<Rightarrow> bool" where
  "pool_idle s =
    (\<exists>n > 0. queues s = replicate n [] \<and> running s = replicate n None \<and> pending_tasks s = 0)"

text \<open>
  Two descriptors of the same shape: format, dimensions and stride agree, and the buffers
  are of the same kind and length.
\<close>

definition same_shape :: "CpuImage \<Rightarrow> CpuImage \<Rightarrow> bool" where
  "same_shape a b =
    (cpu_type a = cpu_type b \<and> cpu_width a = cpu_width b \<and> cpu_height a = cpu_height b \<and>
     cpu_stride_bytes a = cpu_stride_bytes b \<and>
     (case (cpu_data a, cpu_data b) of
        (None, None) \<Rightarrow> True
      | (Some (U8_buffer x), Some (U8_buffer y)) \<Rightarrow> length x = length y
      | (Some (F32_buffer x), Some (F32_buffer y)) \<Rightarrow> length x = length y
      | _ \<Rightarrow> False))"

text \<open>The two views that \<^verbatim>\<open>sanitize\<close> passes to \<^verbatim>\<open>sr_lite_refine\<close>.\<close>

definition sr_input_view :: "Image \<Rightarrow> nat \<Rightarrow> nat \<Rightarrow> CpuImage" where
  "sr_input_view sr_input sr_width sr_height =
    \<lparr>cpu_type = F32_RGB, cpu_width = sr_width, cpu_height = sr_height,
     cpu_stride_bytes = sr_width * 3 * 4,
     cpu_data = Some (F32_buffer (img_pixels sr_input))\<rparr>"

definition sr_output_view :: "CpuImage \<Rightarrow> CpuImage" where
  "sr_output_view outp =
    \<lparr>cpu_type = F32_RGB, cpu_width = cpu_width outp, cpu_height = cpu_height outp,
     cpu_stride_bytes = cpu_width outp * 3 * 4,
     cpu_data = Some (F32_buffer (replicate (cpu_width outp * cpu_height outp * 3) 0))\<rparr>"


section \<open>Properties of the array-write predicate\<close>

lemma writes_set_id: "writes_set (\<lambda>d. d) {} g"
  by (simp add: writes_set_def)

lemma writes_set_update: "writes_set (\<lambda>d. d[k := g k (d ! k)]) {k} g"
  by (simp add: writes_set_def nth_list_update)

lemma writes_set_comp:
  assumes "writes_set F1 S1 g" "writes_set F2 S2 g" "S1 \<inter> S2 = {}"
  shows "writes_set (F2 \<circ> F1) (S1 \<union> S2) g"
  using assms unfolding writes_set_def by (auto simp: disjoint_iff)

lemma writes_set_fold:
  assumes "\<And>i. i < n \<Longrightarrow> writes_set (F i) (S i) g"
    and "\<And>i j. i < j \<Longrightarrow> j < n \<Longrightarrow> S i \<inter> S j = {}"
  shows "writes_set (fold F [0..<n]) (\<Union>i<n. S i) g"
  using assms
proof (induction n)
  case 0
  then show ?case by (simp add: writes_set_def)
next
  case (Suc n)
  have a: "writes_set (fold F [0..<n]) (\<Union>i<n. S i) g"
    using Suc by simp
  have b: "writes_set (F n) (S n) g" using Suc.prems(1) by simp
  have c: "(\<Union>i<n. S i) \<inter> S n = {}" using Suc.prems(2) by auto
  have "writes_set (F n \<circ> fold F [0..<n]) ((\<Union>i<n. S i) \<union> S n) g"
    by (rule writes_set_comp [OF a b c])
  moreover have "(\<Union>i<Suc n. S i) = (\<Union>i<n. S i) \<union> S n"
    by (auto simp: less_Suc_eq)
  ultimately show ?case by (simp add: comp_def)
qed

lemma writes_setD:
  "writes_set F S g \<Longrightarrow> j < length d \<Longrightarrow> j \<in> S \<Longrightarrow> F d ! j = g j (d ! j)"
  by (simp add: writes_set_def)

lemma writes_set_length: "writes_set F S g \<Longrightarrow> length (F d) = length d"
  by (simp add: writes_set_def)

lemma writes_set_cong: "writes_set F S g \<Longrightarrow> S = S' \<Longrightarrow> F = F' \<Longrightarrow> writes_set F' S' g"
  by simp

lemma idx_div_row:
  assumes "x < w" "c < ch"
  shows "(y * w * ch + x * ch + c) div (w * ch) = (y::nat)"
proof -
  have "x * ch + c < w * ch"
  proof -
    have "x * ch + c < x * ch + ch" using assms by simp
    also have "\<dots> = (x + 1) * ch" by simp
    also have "\<dots> \<le> w * ch" using assms by (intro mult_le_mono1) simp
    finally show ?thesis .
  qed
  then have r: "x * ch + c < w * ch" by simp
  have nz: "w * ch \<noteq> 0" using assms by auto
  have e: "y * w * ch + x * ch + c = y * (w * ch) + (x * ch + c)" by simp
  have "(y * w * ch + x * ch + c) div (w * ch) = (y * (w * ch) + (x * ch + c)) div (w * ch)"
    by (simp only: e)
  also have "\<dots> = y + (x * ch + c) div (w * ch)" by (rule div_mult_self3 [OF nz])
  also have "\<dots> = y" using r by simp
  finally show ?thesis .
qed

lemma idx_div_col:
  assumes "x < w" "c < ch"
  shows "((y * w * ch + x * ch + c) div ch) mod w = (x::nat)"
proof -
  have "y * w * ch + x * ch + c = (y * w + x) * ch + c" by (simp add: algebra_simps)
  then have "(y * w * ch + x * ch + c) div ch = y * w + x" using assms by simp
  then show ?thesis using assms by simp
qed

lemma quantize_pixel_writes:
  assumes "x < width"
  shows "writes_set
    (quantize_pixel L M I channels (y * width * channels) (bayer_threshold (y AND 7) (x AND 7)) x)
    (\<Union>c<channels. {y * width * channels + x * channels + c})
    (quantize_at L M I width channels)"
  unfolding quantize_pixel_def Let_def
proof (rule writes_set_fold)
  fix c assume c: "c < channels"
  have "quantize_at L M I width channels (y * width * channels + x * channels + c) =
        quantize_value L M I (bayer_threshold (y AND 7) (x AND 7))"
    using assms c by (simp add: quantize_at_def idx_div_row idx_div_col fun_eq_iff)
  then show "writes_set (\<lambda>d. d[y * width * channels + x * channels + c :=
        quantize_value L M I (bayer_threshold (y AND 7) (x AND 7))
          (d ! (y * width * channels + x * channels + c))])
      {y * width * channels + x * channels + c} (quantize_at L M I width channels)"
    using writes_set_update [of "y * width * channels + x * channels + c" "quantize_at L M I width channels"]
    by simp
next
  fix i j :: nat assume "i < j" "j < channels"
  then show "{y * width * channels + x * channels + i} \<inter> {y * width * channels + x * channels + j} = {}"
    by simp
qed

lemma quantize_row_writes:
  "writes_set (quantize_row L M I width channels y)
    (\<Union>x<width. \<Union>c<channels. {y * width * channels + x * channels + c})
    (quantize_at L M I width channels)"
  unfolding quantize_row_def Let_def
proof (rule writes_set_fold)
  fix x assume "x < width"
  then show "writes_set
      (quantize_pixel L M I channels (y * width * channels) (bayer_threshold (y AND 7) (x AND 7)) x)
      (\<Union>c<channels. {y * width * channels + x * channels + c})
      (quantize_at L M I width channels)"
    by (rule quantize_pixel_writes)
next
  fix i j :: nat assume ij: "i < j" "j < width"
  show "(\<Union>c<channels. {y * width * channels + i * channels + c}) \<inter>
        (\<Union>c<channels. {y * width * channels + j * channels + c}) = {}"
  proof -
    { fix c c' assume c: "c < channels" "c' < channels"
      assume e: "y * width * channels + i * channels + c = y * width * channels + j * channels + c'"
      have "((y * width * channels + i * channels + c) div channels) mod width = i"
        using ij c by (intro idx_div_col) auto
      moreover have "((y * width * channels + j * channels + c') div channels) mod width = j"
        using ij c by (intro idx_div_col) auto
      ultimately have False using e ij by simp }
    then show ?thesis by auto
  qed
qed

lemma quantize_rows_writes:
  "writes_set (fold (quantize_row L M I width channels) [0..<height])
    (\<Union>y<height. \<Union>x<width. \<Union>c<channels. {y * width * channels + x * channels + c})
    (quantize_at L M I width channels)"
proof (rule writes_set_fold)
  fix y assume "y < height"
  show "writes_set (quantize_row L M I width channels y)
    (\<Union>x<width. \<Union>c<channels. {y * width * channels + x * channels + c})
    (quantize_at L M I width channels)"
    by (rule quantize_row_writes)
next
  fix i j :: nat assume ij: "i < j" "j < height"
  show "(\<Union>x<width. \<Union>c<channels. {i * width * channels + x * channels + c}) \<inter>
        (\<Union>x<width. \<Union>c<channels. {j * width * channels + x * channels + c}) = {}"
  proof -
    { fix x c x' c' assume c: "x < width" "c < channels" "x' < width" "c' < channels"
      assume e: "i * width * channels + x * channels + c = j * width * channels + x' * channels + c'"
      have "(i * width * channels + x * channels + c) div (width * channels) = i"
        using c by (intro idx_div_row) auto
      moreover have "(j * width * channels + x' * channels + c') div (width * channels) = j"
        using c by (intro idx_div_row) auto
      ultimately have False using e ij by simp }
    then show ?thesis by auto
  qed
qed

lemma idx_bound:
  assumes "x < width" "y < height" "c < channels"
  shows "y * width * channels + x * channels + c < width * height * (channels::nat)"
proof -
  have "x * channels + c < width * channels"
  proof -
    have "x * channels + c < (x + 1) * channels" using assms by simp
    also have "\<dots> \<le> width * channels" using assms by (intro mult_le_mono1) simp
    finally show ?thesis .
  qed
  then have "y * width * channels + x * channels + c < (y + 1) * (width * channels)"
    by (simp add: algebra_simps)
  also have "\<dots> \<le> height * (width * channels)"
    using assms by (intro mult_le_mono1) simp
  finally show ?thesis by (simp add: algebra_simps)
qed

lemma quantize_in_place_nth:
  assumes "x < width" "y < height" "c < channels"
    and "length data = width * height * channels"
  shows "quantize_in_place data width height channels bits ! (y * width * channels + x * channels + c) =
      (let levels = push_bit (unat (sanitize_bits bits)) (1 :: u32);
           max_level = sint (levels - 1)
       in quantize_value levels max_level (if max_level > 0 then 1 / real_of_int max_level else 0)
            (bayer_threshold (y AND 7) (x AND 7))
            (data ! (y * width * channels + x * channels + c)))"
proof -
  let ?L = "push_bit (unat (sanitize_bits bits)) (1 :: u32)"
  let ?M = "sint (?L - 1)"
  let ?I = "if ?M > 0 then 1 / real_of_int ?M else 0"
  let ?j = "y * width * channels + x * channels + c"
  have j: "?j < length data" using assms idx_bound by simp
  have mem: "?j \<in> (\<Union>y<height. \<Union>x<width. \<Union>c<channels. {y * width * channels + x * channels + c})"
    using assms by auto
  have "fold (quantize_row ?L ?M ?I width channels) [0..<height] data ! ?j =
      quantize_at ?L ?M ?I width channels ?j (data ! ?j)"
    by (rule writes_setD [OF quantize_rows_writes j mem])
  moreover have "quantize_at ?L ?M ?I width channels ?j =
      quantize_value ?L ?M ?I (bayer_threshold (y AND 7) (x AND 7))"
    using assms by (simp add: quantize_at_def idx_div_row idx_div_col fun_eq_iff)
  moreover have "\<not> (width = 0 \<or> height = 0 \<or> channels = 0)" using assms by auto
  then have "quantize_in_place data width height channels bits =
      fold (quantize_row ?L ?M ?I width channels) [0..<height] data"
    unfolding quantize_in_place_def Let_def by (rule if_not_P)
  ultimately show ?thesis unfolding Let_def by (simp only:)
qed


section \<open>Properties of the bit-depth quantizer\<close>

lemma and_7_eq_mod_8: "(y :: nat) AND 7 = y mod 8"
  using take_bit_eq_mask [of 3 y] by (simp add: take_bit_eq_mod mask_eq_exp_minus_1)

lemma sanitize_bits_eq: "sanitize_bits bits = (if bits = 0 then 6 else spec_clamp_bits bits)"
  by (auto simp: sanitize_bits_def spec_clamp_bits_def Let_def word_less_1)

lemma sanitize_bits_range: "1 \<le> sanitize_bits bits \<and> sanitize_bits bits \<le> 8"
  using unat_gt_0 [of bits]
  by (auto simp: sanitize_bits_def Let_def word_less_1 word_le_nat_alt word_less_nat_alt)

lemma bits_cases:
  assumes "1 \<le> (bits :: u32)" "bits \<le> 8"
  shows "bits \<in> {1, 2, 3, 4, 5, 6, 7, 8}"
proof -
  have "1 \<le> unat bits" "unat bits \<le> 8"
    using assms by (simp_all add: word_le_nat_alt)
  then have "unat bits \<in> {1, 2, 3, 4, 5, 6, 7, 8}" by auto
  then have "of_nat (unat bits) \<in> (of_nat ` {1, 2, 3, 4, 5, 6, 7, 8} :: u32 set)" by blast
  then show ?thesis by simp
qed

lemma levels_word:
  assumes "1 \<le> (bits :: u32)" "bits \<le> 8"
  shows "unat (push_bit (unat bits) (1 :: u32)) = 2 ^ unat bits"
    and "sint (push_bit (unat bits) (1 :: u32) - 1) = 2 ^ unat bits - 1"
  using bits_cases [OF assms] by auto





lemma quantize_value_level:
  assumes "0 < M"
  shows "\<exists>k. 0 \<le> k \<and> k \<le> M \<and> quantize_value L M (1 / real_of_int M) t v = real_of_int k / real_of_int M"
  using assms unfolding quantize_value_def Let_def
  by (auto intro: exI [of _ 0] exI [of _ M])

lemma infer_channels_eq:
  assumes "0 < img_width img" "0 < img_height img" "0 < channels"
    and "length (img_pixels img) = img_width img * img_height img * channels"
  shows "infer_channels img = channels"
  using assms by (auto simp: infer_channels_def Let_def)

text \<open>
  Claim C4. For a bit depth \<open>bits\<close> in \<open>[1, 8]\<close>, any channel count and any input array,
  after \<^verbatim>\<open>quantize_bitdepth\<close> the sample of channel \<open>c\<close> at pixel \<open>(x, y)\<close> is
  \<open>k / (2 ^ bits - 1)\<close> for an integer \<open>k\<close> in \<open>[0, 2 ^ bits - 1]\<close>, and it is the quantization
  of the old sample with the dither threshold of the matrix cell \<open>(y mod 8, x mod 8)\<close>: the
  threshold depends on nothing but \<open>x mod 8\<close> and \<open>y mod 8\<close>.
\<close>

theorem quantize_bitdepth_levels:
  assumes bits: "1 \<le> bits" "bits \<le> 8"
    and ch: "0 < channels"
    and len: "length (img_pixels img) = img_width img * img_height img * channels"
    and xyc: "x < img_width img" "y < img_height img" "c < channels"
  shows
    "(\<exists>k. 0 \<le> k \<and> k \<le> 2 ^ unat bits - 1 \<and>
        img_pixels (quantize_bitdepth img bits) ! (y * img_width img * channels + x * channels + c) =
          real_of_int k / (2 ^ unat bits - 1)) \<and>
     img_pixels (quantize_bitdepth img bits) ! (y * img_width img * channels + x * channels + c) =
       quantize_value (push_bit (unat bits) 1) (2 ^ unat bits - 1) (1 / (2 ^ unat bits - 1))
         (bayer_threshold (y mod 8) (x mod 8))
         (img_pixels img ! (y * img_width img * channels + x * channels + c))"
proof -
  let ?j = "y * img_width img * channels + x * channels + c"
  let ?M = "2 ^ unat bits - 1 :: int"
  have sb: "sanitize_bits bits = bits"
    using bits by (auto simp: sanitize_bits_def Let_def word_less_1)
  have M: "sint (push_bit (unat bits) (1 :: u32) - 1) = ?M"
    by (rule levels_word(2) [OF bits])
  have "1 \<le> unat bits" using bits by (simp add: word_le_nat_alt)
  then have "(2::int) ^ 1 \<le> 2 ^ unat bits" by (intro power_increasing) auto
  then have Mpos: "0 < ?M" by simp
  have ic: "infer_channels img = channels"
    using xyc ch len by (intro infer_channels_eq) auto
  have "img_pixels (quantize_bitdepth img bits) =
      quantize_in_place (img_pixels img) (img_width img) (img_height img) channels bits"
    using ch by (simp add: quantize_bitdepth_def ic Let_def)
  then have "img_pixels (quantize_bitdepth img bits) ! ?j =
      quantize_value (push_bit (unat bits) 1) ?M (1 / real_of_int ?M)
        (bayer_threshold (y AND 7) (x AND 7)) (img_pixels img ! ?j)"
    using quantize_in_place_nth [OF xyc len, of bits] Mpos
    by (simp only: sb M Let_def if_True)
  then have eq: "img_pixels (quantize_bitdepth img bits) ! ?j =
      quantize_value (push_bit (unat bits) 1) ?M (1 / real_of_int ?M)
        (bayer_threshold (y mod 8) (x mod 8)) (img_pixels img ! ?j)"
    by (simp only: and_7_eq_mod_8)
  obtain k where "0 \<le> k" "k \<le> ?M"
    "quantize_value (push_bit (unat bits) 1) ?M (1 / real_of_int ?M)
        (bayer_threshold (y mod 8) (x mod 8)) (img_pixels img ! ?j) = real_of_int k / real_of_int ?M"
    using quantize_value_level [OF Mpos] by blast
  then have "\<exists>k. 0 \<le> k \<and> k \<le> ?M \<and>
      img_pixels (quantize_bitdepth img bits) ! ?j = real_of_int k / real_of_int ?M"
    using eq by auto
  then show ?thesis using eq by simp
qed

theorem quantize_bitdepth_levels_witness:
  "img_pixels (quantize_bitdepth \<lparr>img_width = 1, img_height = 1, img_pixels = [1/2]\<rparr> 6) ! 0 = 31 / 63"
proof -
  let ?img = "\<lparr>img_width = 1, img_height = 1, img_pixels = [1/2]\<rparr>"
  have "img_pixels (quantize_bitdepth ?img 6) ! 0 =
      quantize_value 64 63 (1 / 63) (bayer_threshold 0 0) (1/2)"
    using quantize_bitdepth_levels [of 6 1 ?img 0 0 0] by simp
  then show ?thesis
    by (simp add: quantize_value_def bayer_threshold_def kBayer8x8_def kInvBayerScale_def
        clamp01_def)
qed

text \<open>
  Claim C5, as amended. A requested depth of 0 selects the default depth 6; every other
  request is clamped into \<open>[1, 8]\<close>. \<^verbatim>\<open>quantize_bitdepth\<close> behaves for \<open>bits\<close> exactly as
  for that effective depth.
\<close>

theorem sanitize_bits_effective:
  "sanitize_bits bits = (if bits = 0 then 6 else spec_clamp_bits bits) \<and>
   quantize_bitdepth img bits =
     quantize_bitdepth img (if bits = 0 then 6 else spec_clamp_bits bits)"
proof -
  have a: "sanitize_bits bits = (if bits = 0 then 6 else spec_clamp_bits bits)"
    by (rule sanitize_bits_eq)
  have "sanitize_bits (sanitize_bits bits) = sanitize_bits bits"
    using sanitize_bits_range [of bits] unat_gt_0 [of "sanitize_bits bits"]
    by (auto simp: sanitize_bits_def [of "sanitize_bits bits"] Let_def word_less_1 word_le_nat_alt
        word_less_nat_alt)
  then have q: "quantize_in_place d w h c (sanitize_bits bits) = quantize_in_place d w h c bits"
    for d w h c by (simp add: quantize_in_place_def)
  have "quantize_bitdepth img (sanitize_bits bits) = quantize_bitdepth img bits"
    by (simp add: quantize_bitdepth_def Let_def q)
  then show ?thesis using a by simp
qed

text \<open>
  Claim C5 as stated fails at \<open>bits = 0\<close>: the clamp into \<open>[1, 8]\<close> gives depth 1 (2 levels),
  the code uses depth 6 (64 levels), and the two quantizations of the one-sample image
  \<open>[1/2]\<close> differ.
\<close>

theorem quantize_bitdepth_zero_bits_counterexample:
  "sanitize_bits 0 = 6 \<and> spec_clamp_bits 0 = 1 \<and>
   img_pixels (quantize_bitdepth \<lparr>img_width = 1, img_height = 1, img_pixels = [1/2]\<rparr> 0) = [31 / 63] \<and>
   img_pixels (quantize_bitdepth \<lparr>img_width = 1, img_height = 1, img_pixels = [1/2]\<rparr>
     (spec_clamp_bits 0)) = [0]"
  by (simp add: quantize_bitdepth_def infer_channels_def quantize_in_place_def quantize_row_def
      quantize_pixel_def quantize_value_def sanitize_bits_def spec_clamp_bits_def
      bayer_threshold_def kBayer8x8_def kInvBayerScale_def clamp01_def Let_def)

section \<open>Properties of the cubic resampler\<close>

lemma cpp_rem_bounds:
  assumes "0 < b"
  shows "- b < cpp_rem a b" "cpp_rem a b < b"
proof -
  define r where "r = \<bar>a\<bar> mod b"
  have m: "0 \<le> r" "r < b" using assms by (auto simp: r_def)
  have e: "cpp_rem a b = sgn a * r" by (simp add: cpp_rem_def r_def abs_of_pos [OF assms])
  show "- b < cpp_rem a b" using m assms unfolding e by (auto simp: sgn_if)
  show "cpp_rem a b < b" using m assms unfolding e by (auto simp: sgn_if)
qed

lemma mirror_index_less:
  assumes "0 < len"
  shows "mirror_index idx len < len"
proof (cases "len = 1")
  case True
  then show ?thesis by (simp add: mirror_index_def)
next
  case False
  with assms have len: "2 \<le> len" by simp
  define period where "period = int (len * 2 - 2)"
  have p: "0 < period" "period = 2 * int len - 2" using len by (auto simp: period_def)
  note b = cpp_rem_bounds [OF p(1), of idx]
  show ?thesis
    using len b p unfolding mirror_index_def Let_def period_def [symmetric]
    by (auto simp: nat_less_iff)
qed

lemma mirror_index_id:
  assumes "i < len"
  shows "mirror_index (int i) len = i"
proof (cases "len = 1")
  case True
  then show ?thesis using assms by (simp add: mirror_index_def)
next
  case False
  with assms have len: "2 \<le> len" by simp
  have "int i < int (len * 2 - 2)" using assms len by auto
  then have "cpp_rem (int i) (int (len * 2 - 2)) = int i"
    by (cases "i = 0") (auto simp: cpp_rem_def sgn_if)
  then show ?thesis using assms len by (simp add: mirror_index_def Let_def)
qed

lemma fold_invariant:
  assumes "\<And>x a. x \<in> set xs \<Longrightarrow> P a \<Longrightarrow> P (f x a)" "P a"
  shows "P (fold f xs a)"
  using assms by (induction xs arbitrary: a) auto

lemma fold_snoc_map: "fold (\<lambda>i table. table @ [f i]) xs t = t @ map f xs"
  by (induction xs arbitrary: t) auto

lemma build_cubic_weight_table_map:
  assumes "0 < src_size" "0 < dst_size"
  shows "build_cubic_weight_table src_size dst_size =
    map (\<lambda>i. normalize_or_fallback src_size (phase_pos src_size dst_size i)
                (phase_taps src_size dst_size i)) [0..<dst_size]"
  using assms by (simp add: build_cubic_weight_table_def fold_snoc_map)

lemma chunk_loop_concat:
  assumes "0 < chunk_size" "b \<le> e"
  shows "concat (map (\<lambda>(cb, ce). [cb..<ce]) (chunk_loop b e chunk_size)) = [b..<e]"
  using assms
proof (induction b e chunk_size rule: chunk_loop.induct)
  case (1 b e chunk_size)
  show ?case
  proof (cases "b < e")
    case True
    let ?m = "min e (b + chunk_size)"
    have ih: "concat (map (\<lambda>(cb, ce). [cb..<ce]) (chunk_loop ?m e chunk_size)) = [?m..<e]"
      using "1.prems" True by (intro "1.IH") auto
    have "b \<le> ?m" "?m \<le> e" using True by auto
    then have "[b..<e] = [b..<?m] @ [?m..<e]"
      using upt_add_eq_append [of b ?m "e - ?m"] by simp
    then show ?thesis
      using "1.prems" True ih by (subst chunk_loop.simps) (simp add: Let_def)
  next
    case False
    then show ?thesis using "1.prems" by (subst chunk_loop.simps) simp
  qed
qed

lemma parallel_for_impl_concat:
  assumes "b < e"
  shows "concat (map (\<lambda>(cb, ce). [cb..<ce]) (parallel_for_impl pool_size b e)) = [b..<e]"
  using assms by (auto simp: parallel_for_impl_def Let_def chunk_loop_concat)

lemma parallel_for_sequential: "parallel_for pool_size b e fn s = fold fn [b..<e] s"
proof (cases "e \<le> b")
  case True
  then show ?thesis by (simp add: parallel_for_def)
next
  case False
  then have be: "b < e" by simp
  have "fold (\<lambda>(cb, ce). fold fn [cb..<ce]) cs = fold fn (concat (map (\<lambda>(cb, ce). [cb..<ce]) cs))"
    for cs :: "(nat \<times> nat) list"
    by (induction cs) (auto simp: fun_eq_iff)
  then show ?thesis
    using False by (simp add: parallel_for_def parallel_for_impl_concat [OF be])
qed

lemma idx_mod_ch:
  assumes "c < ch"
  shows "(y * w * ch + x * ch + c) mod ch = (c::nat)"
proof -
  have "y * w * ch + x * ch + c = (y * w + x) * ch + c" by (simp add: algebra_simps)
  then show ?thesis using assms by simp
qed

lemma idx_decompose:
  assumes "j < w * h * (ch::nat)"
  shows "\<exists>y x c. y < h \<and> x < w \<and> c < ch \<and> j = y * w * ch + x * ch + c"
proof -
  have ch: "0 < ch" and w: "0 < w" using assms by (auto intro: Nat.gr0I)
  let ?q = "j div ch"
  have q: "?q < w * h"
    using assms by (simp add: less_mult_imp_div_less)
  have y: "?q div w < h" using q by (simp add: less_mult_imp_div_less mult.commute)
  have x: "?q mod w < w" using w by simp
  have c: "j mod ch < ch" using ch by simp
  have "(?q div w) * w * ch + (?q mod w) * ch + j mod ch =
      ((?q div w) * w + ?q mod w) * ch + j mod ch"
    by (simp only: add_mult_distrib)
  also have "\<dots> = ?q * ch + j mod ch" by (simp only: div_mult_mod_eq)
  also have "\<dots> = j" by (simp only: div_mult_mod_eq)
  finally have "j = (?q div w) * w * ch + (?q mod w) * ch + j mod ch" by simp
  then show ?thesis using y x c by blast
qed

lemma grid_writes:
  "writes_set
     (fold (\<lambda>y. fold (\<lambda>x. fold (\<lambda>c d. d[y * w * ch + x * ch + c := v y x c]) [0..<ch]) [0..<w]) [0..<h])
     (\<Union>y<h. \<Union>x<w. \<Union>c<ch. {y * w * ch + x * ch + c})
     (\<lambda>j _. v (j div (w * ch)) ((j div ch) mod w) (j mod ch))"
proof (rule writes_set_fold)
  fix y assume "y < h"
  show "writes_set (fold (\<lambda>x. fold (\<lambda>c d. d[y * w * ch + x * ch + c := v y x c]) [0..<ch]) [0..<w])
     (\<Union>x<w. \<Union>c<ch. {y * w * ch + x * ch + c})
     (\<lambda>j _. v (j div (w * ch)) ((j div ch) mod w) (j mod ch))"
  proof (rule writes_set_fold)
    fix x assume x: "x < w"
    show "writes_set (fold (\<lambda>c d. d[y * w * ch + x * ch + c := v y x c]) [0..<ch])
       (\<Union>c<ch. {y * w * ch + x * ch + c})
       (\<lambda>j _. v (j div (w * ch)) ((j div ch) mod w) (j mod ch))"
    proof (rule writes_set_fold)
      fix c assume c: "c < ch"
      have "v y x c = v ((y * w * ch + x * ch + c) div (w * ch))
          (((y * w * ch + x * ch + c) div ch) mod w) ((y * w * ch + x * ch + c) mod ch)"
        using x c by (simp only: idx_div_row idx_div_col idx_mod_ch)
      then show "writes_set (\<lambda>d. d[y * w * ch + x * ch + c := v y x c])
          {y * w * ch + x * ch + c}
          (\<lambda>j _. v (j div (w * ch)) ((j div ch) mod w) (j mod ch))"
        by (simp add: writes_set_def nth_list_update)
    next
      fix i j :: nat assume "i < j" "j < ch"
      then show "{y * w * ch + x * ch + i} \<inter> {y * w * ch + x * ch + j} = {}" by simp
    qed
  next
    fix i j :: nat assume ij: "i < j" "j < w"
    { fix c c' assume c: "c < ch" "c' < ch"
      assume e: "y * w * ch + i * ch + c = y * w * ch + j * ch + c'"
      have "((y * w * ch + i * ch + c) div ch) mod w = i"
        using ij c by (intro idx_div_col) auto
      moreover have "((y * w * ch + j * ch + c') div ch) mod w = j"
        using ij c by (intro idx_div_col) auto
      ultimately have False using e ij by simp }
    then show "(\<Union>c<ch. {y * w * ch + i * ch + c}) \<inter> (\<Union>c<ch. {y * w * ch + j * ch + c}) = {}"
      by auto
  qed
next
  fix i j :: nat assume ij: "i < j" "j < h"
  { fix x c x' c' assume c: "x < w" "c < ch" "x' < w" "c' < ch"
    assume e: "i * w * ch + x * ch + c = j * w * ch + x' * ch + c'"
    have "(i * w * ch + x * ch + c) div (w * ch) = i"
      using c by (intro idx_div_row) auto
    moreover have "(j * w * ch + x' * ch + c') div (w * ch) = j"
      using c by (intro idx_div_row) auto
    ultimately have False using e ij by simp }
  then show "(\<Union>x<w. \<Union>c<ch. {i * w * ch + x * ch + c}) \<inter>
        (\<Union>x<w. \<Union>c<ch. {j * w * ch + x * ch + c}) = {}"
    by auto
qed


lemma grid_fold_nth:
  assumes "y < h" "x < w" "c < ch" "length d = w * h * ch"
  shows "fold (\<lambda>y. fold (\<lambda>x. fold (\<lambda>c d. d[y * w * ch + x * ch + c := v y x c]) [0..<ch]) [0..<w]) [0..<h] d
      ! (y * w * ch + x * ch + c) = v y x c"
proof -
  let ?j = "y * w * ch + x * ch + c"
  have j: "?j < length d" using assms idx_bound [of x w y h c ch] by simp
  have mem: "?j \<in> (\<Union>y<h. \<Union>x<w. \<Union>c<ch. {y * w * ch + x * ch + c})" using assms by auto
  show ?thesis
    using writes_setD [OF grid_writes j mem, of v]
    by (simp only: idx_div_row [OF assms(2,3)] idx_div_col [OF assms(2,3)] idx_mod_ch [OF assms(3)])
qed


lemma horizontal_row_grid:
  "fold (horizontal_row src iw nw ch hw) [0..<h] =
   fold (\<lambda>y. fold (\<lambda>x. fold (\<lambda>c d. d[y * nw * ch + x * ch + c :=
       accumulate_taps (hw ! x) (\<lambda>src_idx. src ! (y * iw * ch + src_idx * ch + c))]) [0..<ch]) [0..<nw])
     [0..<h]"
  by (rule arg_cong [where f = "\<lambda>f. fold f [0..<h]"]) (simp add: fun_eq_iff horizontal_row_def)


section \<open>Properties of the block transform\<close>

lemma fold2_some:
  assumes inj: "\<And>a b a' b'. a < m \<Longrightarrow> b < n \<Longrightarrow> a' < m \<Longrightarrow> b' < n \<Longrightarrow> I a b = I a' b' \<Longrightarrow>
      a = a' \<and> b = b'"
    and ab: "a < m" "b < (n::nat)"
  shows "(SOME p. fst p < m \<and> snd p < n \<and> I (fst p) (snd p) = I a b) = (a, b)"
proof (rule some_equality)
  show "fst (a, b) < m \<and> snd (a, b) < n \<and> I (fst (a, b)) (snd (a, b)) = I a b"
    using ab by simp
next
  fix p assume p: "fst p < m \<and> snd p < n \<and> I (fst p) (snd p) = I a b"
  then have "fst p = a \<and> snd p = b" using inj [of "fst p" "snd p" a b] ab by blast
  then show "p = (a, b)" by (simp add: prod_eq_iff)
qed

lemma fold2_writes:
  assumes inj: "\<And>a b a' b'. a < m \<Longrightarrow> b < n \<Longrightarrow> a' < m \<Longrightarrow> b' < n \<Longrightarrow> I a b = I a' b' \<Longrightarrow>
      a = a' \<and> b = b'"
  shows "writes_set (fold (\<lambda>a. fold (\<lambda>b d. d[I a b := v a b]) [0..<n]) [0..<m])
     (\<Union>a<m. \<Union>b<n. {I a b})
     (\<lambda>j _. v (fst (SOME p. fst p < m \<and> snd p < n \<and> I (fst p) (snd p) = j))
             (snd (SOME p. fst p < m \<and> snd p < n \<and> I (fst p) (snd p) = j)))"
    (is "writes_set _ _ ?g")
proof (rule writes_set_fold)
  fix a assume a: "a < m"
  show "writes_set (fold (\<lambda>b d. d[I a b := v a b]) [0..<n]) (\<Union>b<n. {I a b}) ?g"
  proof (rule writes_set_fold)
    fix b assume b: "b < n"
    show "writes_set (\<lambda>d. d[I a b := v a b]) {I a b} ?g"
      by (simp add: writes_set_def nth_list_update fold2_some [OF inj a b])
  next
    fix i j :: nat assume "i < j" "j < n"
    then show "{I a i} \<inter> {I a j} = {}" using inj [of a i a j] a by auto
  qed
next
  fix i j :: nat assume ij: "i < j" "j < m"
  { fix b b' assume "b < n" "b' < n" "I i b = I j b'"
    then have False using inj [of i b j b'] ij by auto }
  then show "(\<Union>b<n. {I i b}) \<inter> (\<Union>b<n. {I j b}) = {}" by auto
qed

lemma fold2_length:
  assumes "\<And>a b a' b'. a < m \<Longrightarrow> b < n \<Longrightarrow> a' < m \<Longrightarrow> b' < n \<Longrightarrow> I a b = I a' b' \<Longrightarrow>
      a = a' \<and> b = b'"
  shows "length (fold (\<lambda>a. fold (\<lambda>b d. d[I a b := v a b]) [0..<n]) [0..<m] d) = length d"
  by (rule writes_set_length [OF fold2_writes [OF assms]])


section \<open>Properties of the thread pool\<close>

lemma sum_list_update:
  fixes f :: "'a \<Rightarrow> 'b::comm_monoid_add"
  assumes "i < length xs"
  shows "(\<Sum>x\<leftarrow>xs[i := y]. f x) + f (xs ! i) = (\<Sum>x\<leftarrow>xs. f x) + f y"
  using assms
proof (induction xs arbitrary: i)
  case Nil
  then show ?case by simp
next
  case (Cons a xs)
  show ?case
  proof (cases i)
    case 0
    then show ?thesis by (simp add: ac_simps)
  next
    case (Suc j)
    then have "(\<Sum>x\<leftarrow>xs[j := y]. f x) + f (xs ! j) = (\<Sum>x\<leftarrow>xs. f x) + f y"
      using Cons by simp
    then show ?thesis using Suc by (simp add: ac_simps)
  qed
qed

lemma sum_list_all_zero:
  fixes f :: "'a \<Rightarrow> 'b::comm_monoid_add"
  shows "(\<And>x. x \<in> set xs \<Longrightarrow> f x = 0) \<Longrightarrow> (\<Sum>x\<leftarrow>xs. f x) = 0"
  by (induction xs) auto

lemma counted_tasks_zero:
  assumes "counted_tasks s = 0"
  shows "\<forall>q \<in> set (queues s). q = []" "\<forall>r \<in> set (running s). r = None"
proof -
  have a: "(\<Sum>q\<leftarrow>queues s. length q) = 0"
    and b: "(\<Sum>r\<leftarrow>running s. running_count r) = 0"
    using assms by (auto simp: counted_tasks_def)
  show "\<forall>q \<in> set (queues s). q = []" using a by auto
  show "\<forall>r \<in> set (running s). r = None"
  proof
    fix r assume "r \<in> set (running s)"
    then have "running_count r = 0" using b by auto
    then show "r = None" by (cases r) (auto simp: running_count_def)
  qed
qed

lemma work_left_idle:
  assumes "counted_tasks s = 0"
  shows "work_left s = caller_left (caller s)"
proof -
  have "(\<Sum>q\<leftarrow>queues s. \<Sum>t\<leftarrow>q. chunk_indices t) = {#}"
    using counted_tasks_zero(1) [OF assms] by (intro sum_list_all_zero) auto
  moreover have "(\<Sum>r\<leftarrow>running s. running_left r) = {#}"
    using counted_tasks_zero(2) [OF assms] by (intro sum_list_all_zero) (auto simp: running_left_def)
  ultimately show ?thesis by (simp add: work_left_def)
qed

lemma running_simps:
  "running_count None = 0" "running_count (Some t) = 1"
  "running_left None = {#}" "running_left (Some t) = chunk_indices t"
  by (simp_all add: running_count_def running_left_def)

lemma pool_invI:
  assumes "mset (visited s) + work_left s = mset [b..<e]"
    and "pending_tasks s = counted_tasks s"
    and "length (running s) = length (queues s)"
    and "caller_idle (caller s) \<Longrightarrow> pending_tasks s = 0"
  shows "pool_inv b e s"
  using assms by (simp add: pool_inv_def del: mset_upt)

lemma pool_invD:
  assumes "pool_inv b e s"
  shows "mset (visited s) + work_left s = mset [b..<e]"
    and "pending_tasks s = counted_tasks s"
    and "length (running s) = length (queues s)"
    and "caller_idle (caller s) \<Longrightarrow> pending_tasks s = 0"
  using assms by (simp_all add: pool_inv_def del: mset_upt)

lemma mset_upt_step: "cur < e \<Longrightarrow> mset [cur..<e] = add_mset cur (mset [Suc cur..<e])"
  by (simp add: upt_conv_Cons del: mset_upt)

lemma inv_caller_count:
  assumes "pool_inv b e s" "pool_step Caller_count s = Some s'"
  shows "pool_inv b e s'"
  using assms
  by (auto simp: pool_inv_def work_left_def counted_tasks_def
      split: caller_state.splits list.splits)

lemma inv_caller_push:
  assumes "pool_inv b e s" "pool_step Caller_push s = Some s'"
  shows "pool_inv b e s'"
proof -
  from assms(2) obtain c cs where c: "caller s = Counted c cs" and ne: "queues s \<noteq> []"
    by (auto split: caller_state.splits if_splits)
  define qi where "qi = next_queue s mod max 1 (length (running s))"
  have len: "length (running s) = length (queues s)" by (rule pool_invD(3) [OF assms(1)])
  have qi: "qi < length (queues s)" using ne len by (simp add: qi_def max_def)
  have s': "s' = s\<lparr>queues := (queues s)[qi := queues s ! qi @ [c]],
                       next_queue := next_queue s + 1, caller := Submitting cs\<rparr>"
    using assms(2) c ne by (simp add: Let_def qi_def)
  have w: "(\<Sum>q\<leftarrow>(queues s)[qi := queues s ! qi @ [c]]. \<Sum>t\<leftarrow>q. chunk_indices t) =
      (\<Sum>q\<leftarrow>queues s. \<Sum>t\<leftarrow>q. chunk_indices t) + chunk_indices c"
    using sum_list_update [OF qi, of "\<lambda>q. \<Sum>t\<leftarrow>q. chunk_indices t" "queues s ! qi @ [c]"]
    by (simp add: ac_simps)
  have n: "(\<Sum>q\<leftarrow>(queues s)[qi := queues s ! qi @ [c]]. length q) =
      (\<Sum>q\<leftarrow>queues s. length q) + 1"
    using sum_list_update [OF qi, of length "queues s ! qi @ [c]"] by simp
  show ?thesis
    using assms(1) c by (simp add: s' pool_inv_def work_left_def counted_tasks_def w n ac_simps)
qed

lemma inv_caller_invoke:
  assumes "pool_inv b e s" "pool_step Caller_invoke s = Some s'"
  shows "pool_inv b e s'"
  using assms
  by (auto simp: pool_inv_def work_left_def counted_tasks_def mset_upt_step
      simp del: mset_upt split: caller_state.splits if_splits)

lemma inv_caller_finish_inline:
  assumes "pool_inv b e s" "pool_step Caller_finish_inline s = Some s'"
  shows "pool_inv b e s'"
  using assms
  by (auto simp: pool_inv_def work_left_def counted_tasks_def
      split: caller_state.splits if_splits)

lemma inv_caller_wait:
  assumes "pool_inv b e s" "pool_step Caller_wait s = Some s'"
  shows "pool_inv b e s'"
  using assms
  by (auto simp: pool_inv_def work_left_def counted_tasks_def
      split: caller_state.splits if_splits list.splits)

lemma inv_worker_pop:
  assumes "pool_inv b e s" "pool_step (Worker_pop i) s = Some s'"
  shows "pool_inv b e s'"
proof -
  from assms(2) obtain t ts where i: "i < length (queues s)" "i < length (running s)"
    and r: "running s ! i = None" and q: "queues s ! i = t # ts"
    and s': "s' = s\<lparr>queues := (queues s)[i := ts], running := (running s)[i := Some t]\<rparr>"
    by (auto split: if_splits list.splits)
  have w1: "(\<Sum>q\<leftarrow>(queues s)[i := ts]. \<Sum>t\<leftarrow>q. chunk_indices t) + chunk_indices t =
      (\<Sum>q\<leftarrow>queues s. \<Sum>t\<leftarrow>q. chunk_indices t)"
    using sum_list_update [OF i(1), of "\<lambda>q. \<Sum>t\<leftarrow>q. chunk_indices t" ts] q
    by (simp add: ac_simps)
  have w2: "(\<Sum>r\<leftarrow>(running s)[i := Some t]. running_left r) =
      (\<Sum>r\<leftarrow>running s. running_left r) + chunk_indices t"
    using sum_list_update [OF i(2), of running_left "Some t"] r
    by (simp add: running_simps)
  have n1: "(\<Sum>q\<leftarrow>(queues s)[i := ts]. length q) + 1 = (\<Sum>q\<leftarrow>queues s. length q)"
    using sum_list_update [OF i(1), of length ts] q by simp
  have n2: "(\<Sum>r\<leftarrow>(running s)[i := Some t]. running_count r) =
      (\<Sum>r\<leftarrow>running s. running_count r) + 1"
    using sum_list_update [OF i(2), of running_count "Some t"] r
    by (simp add: running_simps)
  have w: "work_left s' = work_left s"
    unfolding work_left_def s' using w1 w2 by (simp add: ac_simps)
  have n: "counted_tasks s' = counted_tasks s"
    unfolding counted_tasks_def s' using n1 n2 by simp
  note d = pool_invD [OF assms(1)]
  show ?thesis
  proof (rule pool_invI)
    show "mset (visited s') + work_left s' = mset [b..<e]" using d(1) w by (simp add: s')
    show "pending_tasks s' = counted_tasks s'" using d(2) n by (simp add: s')
    show "length (running s') = length (queues s')" using d(3) by (simp add: s')
    show "pending_tasks s' = 0" if "caller_idle (caller s')" using d(4) that by (simp add: s')
  qed
qed

lemma inv_worker_steal:
  assumes "pool_inv b e s" "pool_step (Worker_steal i target) s = Some s'"
  shows "pool_inv b e s'"
proof -
  from assms(2) have i: "i < length (running s)" "target < length (queues s)"
    and r: "running s ! i = None" and q: "queues s ! target \<noteq> []"
    and s': "s' = s\<lparr>queues := (queues s)[target := butlast (queues s ! target)],
                  running := (running s)[i := Some (last (queues s ! target))]\<rparr>"
    by (auto split: if_splits)
  define t where "t = last (queues s ! target)"
  define ts where "ts = butlast (queues s ! target)"
  have qt: "queues s ! target = ts @ [t]" using q by (simp add: t_def ts_def)
  have w1: "(\<Sum>q\<leftarrow>(queues s)[target := ts]. \<Sum>t\<leftarrow>q. chunk_indices t) + chunk_indices t =
      (\<Sum>q\<leftarrow>queues s. \<Sum>t\<leftarrow>q. chunk_indices t)"
    using sum_list_update [OF i(2), of "\<lambda>q. \<Sum>t\<leftarrow>q. chunk_indices t" ts] qt
    by (simp add: ac_simps)
  have w2: "(\<Sum>r\<leftarrow>(running s)[i := Some t]. running_left r) =
      (\<Sum>r\<leftarrow>running s. running_left r) + chunk_indices t"
    using sum_list_update [OF i(1), of running_left "Some t"] r
    by (simp add: running_simps)
  have n1: "(\<Sum>q\<leftarrow>(queues s)[target := ts]. length q) + 1 = (\<Sum>q\<leftarrow>queues s. length q)"
    using sum_list_update [OF i(2), of length ts] qt by simp
  have n2: "(\<Sum>r\<leftarrow>(running s)[i := Some t]. running_count r) =
      (\<Sum>r\<leftarrow>running s. running_count r) + 1"
    using sum_list_update [OF i(1), of running_count "Some t"] r
    by (simp add: running_simps)
  have s'': "s' = s\<lparr>queues := (queues s)[target := ts], running := (running s)[i := Some t]\<rparr>"
    by (simp add: s' t_def ts_def)
  have w: "work_left s' = work_left s"
    unfolding work_left_def s'' using w1 w2 by (simp add: ac_simps)
  have n: "counted_tasks s' = counted_tasks s"
    unfolding counted_tasks_def s'' using n1 n2 by simp
  note d = pool_invD [OF assms(1)]
  show ?thesis
  proof (rule pool_invI)
    show "mset (visited s') + work_left s' = mset [b..<e]" using d(1) w by (simp add: s'')
    show "pending_tasks s' = counted_tasks s'" using d(2) n by (simp add: s'')
    show "length (running s') = length (queues s')" using d(3) by (simp add: s'')
    show "pending_tasks s' = 0" if "caller_idle (caller s')" using d(4) that by (simp add: s'')
  qed
qed

lemma inv_worker_invoke:
  assumes "pool_inv b e s" "pool_step (Worker_invoke i) s = Some s'"
  shows "pool_inv b e s'"
proof -
  from assms(2) obtain cur ce where i: "i < length (running s)"
    and r: "running s ! i = Some (cur, ce)" and lt: "cur < ce"
    and s': "s' = s\<lparr>visited := visited s @ [cur],
                       running := (running s)[i := Some (cur + 1, ce)]\<rparr>"
    by (auto split: if_splits option.splits)
  have c: "chunk_indices (cur, ce) = add_mset cur (chunk_indices (cur + 1, ce))"
    using lt by (simp add: chunk_indices_def mset_upt_step del: mset_upt)
  have w2: "(\<Sum>r\<leftarrow>(running s)[i := Some (cur + 1, ce)]. running_left r) +
        chunk_indices (cur, ce) =
      (\<Sum>r\<leftarrow>running s. running_left r) + chunk_indices (cur + 1, ce)"
    using sum_list_update [OF i, of running_left "Some (cur + 1, ce)"] r
    by (simp add: running_simps)
  have n2: "(\<Sum>r\<leftarrow>(running s)[i := Some (cur + 1, ce)]. running_count r) =
      (\<Sum>r\<leftarrow>running s. running_count r)"
    using sum_list_update [OF i, of running_count "Some (cur + 1, ce)"] r
    by (simp add: running_simps)
  have "add_mset cur (work_left s') + chunk_indices (cur + 1, ce) =
      work_left s + chunk_indices (cur + 1, ce)"
    unfolding work_left_def s' using w2 c by (simp add: ac_simps)
  then have w: "add_mset cur (work_left s') = work_left s" by simp
  have n: "counted_tasks s' = counted_tasks s"
    unfolding counted_tasks_def s' using n2 by simp
  note d = pool_invD [OF assms(1)]
  show ?thesis
  proof (rule pool_invI)
    have "mset (visited s') + work_left s' = mset (visited s) + add_mset cur (work_left s')"
      by (simp add: s')
    then show "mset (visited s') + work_left s' = mset [b..<e]" using d(1) w by simp
    show "pending_tasks s' = counted_tasks s'" using d(2) n by (simp add: s')
    show "length (running s') = length (queues s')" using d(3) by (simp add: s')
    show "pending_tasks s' = 0" if "caller_idle (caller s')" using d(4) that by (simp add: s')
  qed
qed

lemma inv_worker_complete:
  assumes "pool_inv b e s" "pool_step (Worker_complete i) s = Some s'"
  shows "pool_inv b e s'"
proof -
  from assms(2) obtain cur ce where i: "i < length (running s)"
    and r: "running s ! i = Some (cur, ce)" and ge: "\<not> cur < ce"
    and s': "s' = s\<lparr>running := (running s)[i := None],
                       pending_tasks := pending_tasks s - 1\<rparr>"
    by (auto split: if_splits option.splits)
  have c: "chunk_indices (cur, ce) = {#}" using ge by (simp add: chunk_indices_def)
  have w2: "(\<Sum>r\<leftarrow>(running s)[i := None]. running_left r) = (\<Sum>r\<leftarrow>running s. running_left r)"
    using sum_list_update [OF i, of running_left None] r c
    by (simp add: running_simps)
  have n2: "(\<Sum>r\<leftarrow>(running s)[i := None]. running_count r) + 1 =
      (\<Sum>r\<leftarrow>running s. running_count r)"
    using sum_list_update [OF i, of running_count None] r
    by (simp add: running_simps)
  have w: "work_left s' = work_left s"
    unfolding work_left_def s' using w2 by simp
  have n: "counted_tasks s' + 1 = counted_tasks s"
    unfolding counted_tasks_def s' using n2 by simp
  note d = pool_invD [OF assms(1)]
  show ?thesis
  proof (rule pool_invI)
    show "mset (visited s') + work_left s' = mset [b..<e]" using d(1) w by (simp add: s')
    show "pending_tasks s' = counted_tasks s'" using d(2) n by (simp add: s')
    show "length (running s') = length (queues s')" using d(3) by (simp add: s')
    show "pending_tasks s' = 0" if "caller_idle (caller s')" using d(4) that by (simp add: s')
  qed
qed

lemma pool_step_inv:
  assumes "pool_inv b e s" "pool_step a s = Some s'"
  shows "pool_inv b e s'"
  using assms
  by (cases a)
    (auto intro: inv_caller_count inv_caller_push inv_caller_invoke inv_caller_finish_inline
      inv_caller_wait inv_worker_pop inv_worker_steal inv_worker_invoke inv_worker_complete
      simp del: pool_step.simps)

lemma run_actions_inv:
  assumes "pool_inv b e s" "run_actions acts s = Some s'"
  shows "pool_inv b e s'"
  using assms
proof (induction acts arbitrary: s)
  case Nil
  then show ?case by simp
next
  case (Cons a acts)
  then obtain s1 where s1: "pool_step a s = Some s1" "run_actions acts s1 = Some s'"
    by (auto split: option.splits)
  show ?case by (rule Cons.IH [OF pool_step_inv [OF Cons.prems(1) s1(1)] s1(2)])
qed

lemma sum_list_chunk_indices:
  "(\<Sum>c\<leftarrow>cs. chunk_indices c) = mset (concat (map (\<lambda>(cb, ce). [cb..<ce]) cs))"
  by (induction cs) (auto simp: chunk_indices_def simp del: mset_upt)

lemma sum_list_replicate_zero: "sum_list (replicate n (0::'a::comm_monoid_add)) = 0"
  by (induction n) auto

lemma pool_init_inv: "pool_inv b e (pool_init pool_size b e)"
proof (rule pool_invI)
  have "caller_left (caller (pool_init pool_size b e)) = mset [b..<e]"
  proof (cases "e \<le> b")
    case True
    then show ?thesis by (simp add: pool_init_def)
  next
    case False
    then have "b < e" by simp
    then show ?thesis
      using parallel_for_impl_concat [of b e pool_size]
      by (simp add: pool_init_def Let_def sum_list_chunk_indices del: mset_upt)
  qed
  then show "mset (visited (pool_init pool_size b e)) + work_left (pool_init pool_size b e) =
      mset [b..<e]"
    by (simp add: work_left_def pool_init_def running_simps sum_list_replicate_zero
        del: mset_upt)
  show "pending_tasks (pool_init pool_size b e) = counted_tasks (pool_init pool_size b e)"
    by (simp add: counted_tasks_def pool_init_def Let_def running_simps)
  show "length (running (pool_init pool_size b e)) = length (queues (pool_init pool_size b e))"
    by (simp add: pool_init_def)
  show "pending_tasks (pool_init pool_size b e) = 0" by (simp add: pool_init_def)
qed

lemma returned_all_visited:
  assumes "pool_inv b e s" "caller s = Returned"
  shows "mset (visited s) = mset [b..<e]"
proof -
  note d = pool_invD [OF assms(1)]
  have "pending_tasks s = 0" using d(4) assms(2) by simp
  then have "counted_tasks s = 0" using d(2) by simp
  then have "work_left s = {#}" using work_left_idle assms(2) by simp
  then show ?thesis using d(1) by simp
qed

lemma chunk_loop_nonempty:
  "(cb, ce) \<in> set (chunk_loop b e chunk_size) \<Longrightarrow> cb < ce"
proof (induction b e chunk_size rule: chunk_loop.induct)
  case (1 b e chunk_size)
  show ?case
  proof (cases "chunk_size = 0 \<or> \<not> b < e")
    case True
    then have "chunk_loop b e chunk_size = []" by (subst chunk_loop.simps) auto
    then show ?thesis using "1.prems" by simp
  next
    case False
    then have f: "chunk_size \<noteq> 0" "b < e" by auto
    from "1.prems" have "(cb, ce) = (b, min e (b + chunk_size)) \<or>
        (cb, ce) \<in> set (chunk_loop (min e (b + chunk_size)) e chunk_size)"
      using f by (subst (asm) chunk_loop.simps) (simp add: Let_def)
    then show ?thesis
    proof
      assume "(cb, ce) = (b, min e (b + chunk_size))"
      then show ?thesis using f by auto
    next
      assume "(cb, ce) \<in> set (chunk_loop (min e (b + chunk_size)) e chunk_size)"
      then show ?thesis using "1.IH" [OF f refl] by simp
    qed
  qed
qed

lemma parallel_for_impl_nonempty:
  "(cb, ce) \<in> set (parallel_for_impl pool_size b e) \<Longrightarrow> cb < ce"
  by (auto simp: parallel_for_impl_def Let_def split: if_splits dest: chunk_loop_nonempty)

lemma fold_snoc_log: "fold (\<lambda>i log. log @ [i]) xs l = l @ xs"
  by (induction xs arbitrary: l) auto

lemma run_actions_append:
  "run_actions (as @ bs) s =
    (case run_actions as s of None \<Rightarrow> None | Some s' \<Rightarrow> run_actions bs s')"
  by (induction as arbitrary: s) (auto split: option.splits)

lemma caller_invoke_run:
  assumes "caller s = Inline cur e" "cur + k \<le> e"
  shows "\<exists>s'. run_actions (replicate k Caller_invoke) s = Some s' \<and>
      caller s' = Inline (cur + k) e"
  using assms
proof (induction k arbitrary: s cur)
  case 0
  then show ?case by simp
next
  case (Suc k)
  let ?s1 = "s\<lparr>visited := visited s @ [cur], caller := Inline (cur + 1) e\<rparr>"
  have st: "pool_step Caller_invoke s = Some ?s1" using Suc.prems by simp
  have "\<exists>s'. run_actions (replicate k Caller_invoke) ?s1 = Some s' \<and>
      caller s' = Inline (cur + 1 + k) e"
    using Suc.prems by (intro Suc.IH) auto
  then show ?case using st by (simp del: pool_step.simps)
qed

lemma worker_invoke_run:
  assumes "i < length (running s)" "running s ! i = Some (cur, e)" "k \<le> e - cur"
  shows "\<exists>s'. run_actions (replicate k (Worker_invoke i)) s = Some s' \<and>
      running s' = (running s)[i := Some (cur + k, e)] \<and> queues s' = queues s \<and>
      pending_tasks s' = pending_tasks s \<and> caller s' = caller s \<and>
      next_queue s' = next_queue s"
  using assms
proof (induction k arbitrary: s cur)
  case 0
  have "(running s)[i := Some (cur, e)] = running s"
    using "0.prems"(2) by (metis list_update_id)
  then show ?case by simp
next
  case (Suc k)
  let ?s1 = "s\<lparr>visited := visited s @ [cur], running := (running s)[i := Some (cur + 1, e)]\<rparr>"
  have lt: "cur < e" using Suc.prems by simp
  have st: "pool_step (Worker_invoke i) s = Some ?s1" using Suc.prems lt by simp
  have "\<exists>s'. run_actions (replicate k (Worker_invoke i)) ?s1 = Some s' \<and>
      running s' = (running ?s1)[i := Some (cur + 1 + k, e)] \<and> queues s' = queues ?s1 \<and>
      pending_tasks s' = pending_tasks ?s1 \<and> caller s' = caller ?s1 \<and>
      next_queue s' = next_queue ?s1"
    using Suc.prems by (intro Suc.IH) auto
  then show ?case using st by (simp del: pool_step.simps)
qed

lemma task_round:
  assumes "pool_idle s" "caller s = Submitting (c # cs)"
  shows "\<exists>acts s'. run_actions acts s = Some s' \<and> pool_idle s' \<and> caller s' = Submitting cs"
proof -
  from assms(1) obtain n where n: "0 < n" "queues s = replicate n []"
    "running s = replicate n None" "pending_tasks s = 0"
    by (auto simp: pool_idle_def)
  obtain cb ce where c: "c = (cb, ce)" by (cases c)
  define qi where "qi = next_queue s mod max 1 n"
  have qi: "qi < n" using n(1) by (simp add: qi_def max_def)
  define s1 where "s1 = s\<lparr>pending_tasks := 1, caller := Counted c cs\<rparr>"
  define s2 where "s2 = s1\<lparr>queues := (replicate n [])[qi := [c]],
      next_queue := next_queue s + 1, caller := Submitting cs\<rparr>"
  define s3 where "s3 = s2\<lparr>queues := replicate n [],
      running := (replicate n None)[qi := Some (cb, ce)]\<rparr>"
  have st1: "pool_step Caller_count s = Some s1"
    using assms(2) n by (simp add: s1_def)
  have st2: "pool_step Caller_push s1 = Some s2"
    using n qi by (simp add: s1_def s2_def qi_def Let_def)
  have st3: "pool_step (Worker_pop qi) s2 = Some s3"
    using n qi c by (simp add: s1_def s2_def s3_def list_update_same_conv)
  have r3: "qi < length (running s3)" "running s3 ! qi = Some (cb, ce)"
    using qi by (simp_all add: s3_def)
  obtain s4 where s4: "run_actions (replicate (ce - cb) (Worker_invoke qi)) s3 = Some s4"
    "running s4 = (running s3)[qi := Some (cb + (ce - cb), ce)]" "queues s4 = queues s3"
    "pending_tasks s4 = pending_tasks s3" "caller s4 = caller s3"
    using worker_invoke_run [OF r3 order_refl] by blast
  define s5 where "s5 = s4\<lparr>running := (running s4)[qi := None],
      pending_tasks := pending_tasks s4 - 1\<rparr>"
  have st5: "pool_step (Worker_complete qi) s4 = Some s5"
    using qi by (simp add: s4 s5_def s3_def)
  have run: "run_actions ([Caller_count, Caller_push, Worker_pop qi] @
      replicate (ce - cb) (Worker_invoke qi) @ [Worker_complete qi]) s = Some s5"
    using st1 st2 st3 s4(1) st5 by (simp add: run_actions_append del: pool_step.simps)
  have "(replicate n (None :: (nat \<times> nat) option))[qi := None] = replicate n None"
    using qi by (metis list_update_id nth_replicate)
  then have "queues s5 = replicate n []" "running s5 = replicate n None" "pending_tasks s5 = 0"
    "caller s5 = Submitting cs"
    using qi by (simp_all add: s5_def s4 s3_def s2_def s1_def)
  then have "pool_idle s5 \<and> caller s5 = Submitting cs"
    using n(1) by (auto simp: pool_idle_def)
  then show ?thesis using run by blast
qed

lemma submit_all:
  assumes "pool_idle s" "caller s = Submitting cs"
  shows "\<exists>acts s'. run_actions acts s = Some s' \<and> pool_idle s' \<and> caller s' = Submitting []"
  using assms
proof (induction cs arbitrary: s)
  case Nil
  then have "run_actions [] s = Some s \<and> pool_idle s \<and> caller s = Submitting []" by simp
  then show ?case by blast
next
  case (Cons c cs)
  obtain a1 s1 where s1: "run_actions a1 s = Some s1" "pool_idle s1" "caller s1 = Submitting cs"
    using task_round [OF Cons.prems] by blast
  obtain a2 s2 where s2: "run_actions a2 s1 = Some s2" "pool_idle s2" "caller s2 = Submitting []"
    using Cons.IH [OF s1(2,3)] by blast
  have "run_actions (a1 @ a2) s = Some s2" using s1(1) s2(1) by (simp add: run_actions_append)
  then show ?case using s2 by blast
qed

lemma parallel_for_can_return:
  "\<exists>acts s. run_actions acts (pool_init pool_size b e) = Some s \<and> caller s = Returned"
proof -
  let ?s0 = "pool_init pool_size b e"
  consider (empty) "e \<le> b"
    | (inline) "b < e" "max 1 pool_size \<le> 1 \<or> e - b \<le> max 1 pool_size"
    | (chunked) "b < e" "\<not> (max 1 pool_size \<le> 1 \<or> e - b \<le> max 1 pool_size)"
    by linarith
  then show ?thesis
  proof cases
    case empty
    then have "run_actions [] ?s0 = Some ?s0 \<and> caller ?s0 = Returned"
      by (simp add: pool_init_def)
    then show ?thesis by blast
  next
    case inline
    then have c: "caller ?s0 = Inline b e" by (simp add: pool_init_def Let_def)
    obtain s1 where s1: "run_actions (replicate (e - b) Caller_invoke) ?s0 = Some s1"
      "caller s1 = Inline (b + (e - b)) e"
      using caller_invoke_run [OF c, of "e - b"] inline(1) by auto
    have "pool_step Caller_finish_inline s1 = Some (s1\<lparr>caller := Returned\<rparr>)"
      using s1(2) inline(1) by simp
    then have "run_actions (replicate (e - b) Caller_invoke @ [Caller_finish_inline]) ?s0 =
        Some (s1\<lparr>caller := Returned\<rparr>)"
      using s1(1) by (simp add: run_actions_append del: pool_step.simps)
    moreover have "caller (s1\<lparr>caller := Returned\<rparr>) = Returned" by simp
    ultimately show ?thesis by blast
  next
    case chunked
    then have c: "caller ?s0 = Submitting (parallel_for_impl pool_size b e)"
      by (auto simp: pool_init_def Let_def max_def split: if_splits)
    have "0 < pool_size" using chunked(2) by (auto simp: max_def split: if_splits)
    then have i: "pool_idle ?s0" by (auto simp: pool_idle_def pool_init_def)
    obtain a1 s1 where s1: "run_actions a1 ?s0 = Some s1" "pool_idle s1" "caller s1 = Submitting []"
      using submit_all [OF i c] by blast
    have "pool_step Caller_wait s1 = Some (s1\<lparr>caller := Returned\<rparr>)"
      using s1(2,3) by (auto simp: pool_idle_def)
    then have "run_actions (a1 @ [Caller_wait]) ?s0 = Some (s1\<lparr>caller := Returned\<rparr>)"
      using s1(1) by (simp add: run_actions_append del: pool_step.simps)
    moreover have "caller (s1\<lparr>caller := Returned\<rparr>) = Returned" by simp
    ultimately show ?thesis by blast
  qed
qed

text \<open>
  Claim C9. For every \<open>N\<close> and every size of the pool, the chunks of
  \<^verbatim>\<open>parallel_for(0, N, fn)\<close> are non-empty and, in the order of their submission, list
  the indices \<open>0, ..., N - 1\<close> once each (they are contiguous, pairwise disjoint and cover
  exactly the range); run one after the other, they call the per-index function once on
  every index. In the transition system of the pool, whatever the interleaving of the
  caller and the workers, in every state in which \<^verbatim>\<open>parallel_for\<close> has returned the
  per-index function has been called exactly once on every index of the range and on
  nothing else; and some schedule does make it return. This covers the inline path
  and the chunked path.
\<close>

theorem parallel_for_visits_each_index_once:
  "concat (map (\<lambda>(chunk_begin, chunk_end). [chunk_begin..<chunk_end])
      (parallel_for_impl pool_size 0 N)) = [0..<N] \<and>
   (\<forall>(chunk_begin, chunk_end) \<in> set (parallel_for_impl pool_size 0 N). chunk_begin < chunk_end) \<and>
   parallel_for pool_size 0 N (\<lambda>i log. log @ [i]) [] = [0..<N] \<and>
   (\<forall>acts s. run_actions acts (pool_init pool_size 0 N) = Some s \<and> caller s = Returned \<longrightarrow>
      mset (visited s) = mset [0..<N]) \<and>
   (\<exists>acts s. run_actions acts (pool_init pool_size 0 N) = Some s \<and> caller s = Returned)"
proof -
  have a: "concat (map (\<lambda>(chunk_begin, chunk_end). [chunk_begin..<chunk_end])
      (parallel_for_impl pool_size 0 N)) = [0..<N]"
  proof (cases "N = 0")
    case True
    then show ?thesis by (simp add: parallel_for_impl_def)
  next
    case False
    then show ?thesis by (intro parallel_for_impl_concat) simp
  qed
  have b: "\<forall>(chunk_begin, chunk_end) \<in> set (parallel_for_impl pool_size 0 N). chunk_begin < chunk_end"
    using parallel_for_impl_nonempty by blast
  have c: "parallel_for pool_size 0 N (\<lambda>i log. log @ [i]) [] = [0..<N]"
    by (simp add: parallel_for_sequential fold_snoc_log)
  have d: "\<forall>acts s. run_actions acts (pool_init pool_size 0 N) = Some s \<and> caller s = Returned \<longrightarrow>
      mset (visited s) = mset [0..<N]"
    using returned_all_visited [OF run_actions_inv [OF pool_init_inv]] by blast
  show ?thesis using a b c d parallel_for_can_return by blast
qed

theorem parallel_for_visits_each_index_once_witness:
  "\<exists>s. run_actions
      [Caller_count, Caller_push, Caller_count, Caller_push, Caller_count, Caller_push,
       Worker_pop 0, Worker_invoke 0, Worker_complete 0,
       Worker_steal 1 0, Worker_invoke 1, Worker_complete 1,
       Worker_pop 1, Worker_invoke 1, Worker_complete 1, Caller_wait]
      (pool_init 2 0 3) = Some s \<and>
    caller s = Returned \<and> visited s = [0, 2, 1] \<and> mset (visited s) = mset [0..<3]"
proof -
  let ?acts = "[Caller_count, Caller_push, Caller_count, Caller_push, Caller_count, Caller_push,
       Worker_pop 0, Worker_invoke 0, Worker_complete 0,
       Worker_steal 1 0, Worker_invoke 1, Worker_complete 1,
       Worker_pop 1, Worker_invoke 1, Worker_complete 1, Caller_wait]"
  let ?s = "\<lparr>queues = [[], []], running = [None, None], pending_tasks = 0,
     next_queue = 3, caller = Returned, visited = [0, 2, 1]\<rparr>"
  have r: "run_actions ?acts (pool_init 2 0 3) = Some ?s" by code_simp
  have c: "caller ?s = Returned" by simp
  have "\<forall>acts s. run_actions acts (pool_init 2 0 3) = Some s \<and> caller s = Returned \<longrightarrow>
      mset (visited s) = mset [0..<3]"
    using parallel_for_visits_each_index_once [of 2 3] by (elim conjE)
  then have m: "mset (visited ?s) = mset [0..<3]" using r c by blast
  have v: "visited ?s = [0, 2, 1]" by simp
  show ?thesis using r c v m by blast
qed

section \<open>Properties of the sanitize orchestrator\<close>

lemma convert_image_false:
  assumes "fst (convert_image src dst) = False"
  shows "snd (convert_image src dst) = dst"
  using assms
  by (auto simp: convert_image_def split: if_splits PixelType.splits)

lemma from_float_image_false:
  assumes "fst (from_float_image src dst) = False"
  shows "snd (from_float_image src dst) = dst"
  using assms convert_image_false
  by (auto simp: from_float_image_def Let_def split: if_splits)

lemma same_shape_refl: "same_shape a a"
  by (auto simp: same_shape_def split: option.splits buffer.splits)

lemma same_shape_write_u8: "same_shape a b \<Longrightarrow> same_shape (write_u8 i v a) b"
  by (auto simp: same_shape_def write_u8_def split: option.splits buffer.splits)

lemma same_shape_write_f32: "same_shape a b \<Longrightarrow> same_shape (write_f32 i v a) b"
  by (auto simp: same_shape_def write_f32_def split: option.splits buffer.splits)

lemma same_shape_validate: "same_shape a b \<Longrightarrow> validate_image a = validate_image b"
  by (auto simp: same_shape_def validate_image_def row_bytes_def Let_def
      split: option.splits buffer.splits)


lemma same_shape_fold:
  assumes "\<And>x d. same_shape d b \<Longrightarrow> same_shape (F x d) b" "same_shape a b"
  shows "same_shape (fold F xs a) b"
  using assms(2) by (induction xs arbitrary: a) (auto intro: assms(1))

lemma copy_image_bytes_shape: "same_shape (copy_image_bytes src dst) dst"
  unfolding copy_image_bytes_def Let_def
  by (intro same_shape_fold same_shape_refl)
     (auto intro!: same_shape_fold same_shape_write_u8 same_shape_write_f32)

lemma convert_image_shape: "same_shape (snd (convert_image src dst)) dst"
  unfolding convert_image_def Let_def
  by (auto split: PixelType.splits
      intro!: same_shape_refl copy_image_bytes_shape same_shape_fold
        same_shape_write_u8 same_shape_write_f32)

lemma convert_image_fst:
  "fst (convert_image src dst) =
    (validate_image src \<and> validate_image dst \<and> cpu_width src = cpu_width dst \<and>
     cpu_height src = cpu_height dst \<and>
     (cpu_type src = cpu_type dst \<or> cpu_type src = F32_RGB \<or> cpu_type dst = F32_RGB))"
  by (auto simp: convert_image_def split: PixelType.splits)

lemma validate_float_view:
  "validate_image \<lparr>cpu_type = F32_RGB, cpu_width = w, cpu_height = h,
      cpu_stride_bytes = s, cpu_data = Some b\<rparr> =
    (0 < w \<and> 0 < h \<and> w * 12 \<le> s \<and> s mod 4 = 0)"
  by (auto simp: validate_image_def bytes_per_pixel_def row_bytes_def Let_def)

lemma validate_image_pos: "validate_image img \<Longrightarrow> 0 < cpu_width img \<and> 0 < cpu_height img"
  by (auto simp: validate_image_def Let_def split: if_splits)










lemma sr_supports_type_all: "sr_supports_type t"
  by (cases t) simp_all

lemma sr_lite_refine_ok:
  assumes "validate_image inp" "validate_image outp"
    "cpu_width outp = cpu_width inp * 2" "cpu_height outp = cpu_height inp * 2"
  shows "\<exists>out'. sr_lite_refine pool_size inp outp = (True, out') \<and> same_shape out' outp"
proof -
  have pos: "0 < cpu_width inp \<and> 0 < cpu_height inp" using assms(1) by (rule validate_image_pos)
  let ?lv = "\<lparr>cpu_type = F32_RGB, cpu_width = cpu_width inp,
      cpu_height = cpu_height inp, cpu_stride_bytes = cpu_width inp * kInputChannels * 4,
      cpu_data = Some (F32_buffer (replicate (cpu_width inp * cpu_height inp * kInputChannels) 0))\<rparr>"
  obtain ok1 lv where c1: "convert_image inp ?lv = (ok1, lv)" by (cases "convert_image inp ?lv")
  have "fst (convert_image inp ?lv)"
    unfolding convert_image_fst using assms(1) pos
    by (simp add: validate_float_view kInputChannels_def)
  then have ok1: "ok1" using c1 by simp
  let ?hv = "\<lparr>cpu_type = F32_RGB, cpu_width = cpu_width outp,
      cpu_height = cpu_height outp, cpu_stride_bytes = cpu_width outp * kInputChannels * 4,
      cpu_data = Some (F32_buffer (sr_lite_forward pool_size (buffer_floats lv)
        (replicate (cpu_width outp * cpu_height outp * kInputChannels) 0)
        (cpu_width inp) (cpu_height inp)))\<rparr>"
  obtain ok2 out' where c2: "convert_image ?hv outp = (ok2, out')"
    by (cases "convert_image ?hv outp")
  have "fst (convert_image ?hv outp)"
    unfolding convert_image_fst using assms pos
    by (simp add: validate_float_view kInputChannels_def)
  then have ok2: "ok2" using c2 by simp
  have sh: "same_shape out' outp" using convert_image_shape [of ?hv outp] c2 by simp
  have "sr_lite_refine pool_size inp outp = (True, out')"
    using assms pos c1 ok1 c2 ok2
    by (simp add: sr_lite_refine_def Let_def kUpscaleFactor_def sr_supports_type_all)
  then show ?thesis using sh by blast
qed














lemma float_row: "y * (w * 3 * 4) div 4 = y * w * (3::nat)"
  by simp







text \<open>
  Claim C2. Whenever \<^verbatim>\<open>sanitize\<close> returns false, whatever the reason, the output buffer
  is as the caller passed it: descriptor and contents are unchanged.
\<close>

theorem sanitize_failure_leaves_output:
  assumes "fst (sanitize std_cos kQuantTableQ50 pool_size input output) = False"
  shows "snd (sanitize std_cos kQuantTableQ50 pool_size input output) = output"
proof (cases "sanitize_stages std_cos kQuantTableQ50 pool_size input output")
  case None
  then show ?thesis by (simp add: sanitize_def)
next
  case (Some tr)
  show ?thesis
  proof (cases "from_float_image (tr_final_image tr) output")
    case (Pair ok out')
    show ?thesis
    proof (cases ok)
      case True
      then show ?thesis using assms Some Pair
        by (auto simp: sanitize_def split: if_splits)
    next
      case False
      then have "out' = output" using from_float_image_false [of "tr_final_image tr" "output"] Pair
        by simp
      then show ?thesis using Some Pair False by (simp add: sanitize_def)
    qed
  qed
qed

theorem sanitize_failure_leaves_output_witness:
  "snd (sanitize (\<lambda>a. f32 (cos a)) (replicate 64 16) 2
     \<lparr>cpu_type = U8_RGB, cpu_width = 3, cpu_height = 2, cpu_stride_bytes = 9,
      cpu_data = Some (U8_buffer (replicate 18 7))\<rparr>
     \<lparr>cpu_type = U8_RGB, cpu_width = 3, cpu_height = 2, cpu_stride_bytes = 9,
      cpu_data = Some (U8_buffer (replicate 18 0))\<rparr>) =
   \<lparr>cpu_type = U8_RGB, cpu_width = 3, cpu_height = 2, cpu_stride_bytes = 9,
      cpu_data = Some (U8_buffer (replicate 18 0))\<rparr>"
proof -
  have "fst (sanitize (\<lambda>a. f32 (cos a)) (replicate 64 16) 2
     \<lparr>cpu_type = U8_RGB, cpu_width = 3, cpu_height = 2, cpu_stride_bytes = 9,
      cpu_data = Some (U8_buffer (replicate 18 7))\<rparr>
     \<lparr>cpu_type = U8_RGB, cpu_width = 3, cpu_height = 2, cpu_stride_bytes = 9,
      cpu_data = Some (U8_buffer (replicate 18 0))\<rparr>) = False"
    by (simp add: sanitize_def validate_image_def bytes_per_pixel_def row_bytes_def)
  then show ?thesis by (rule sanitize_failure_leaves_output)
qed

text \<open>
  Claim C10. \<^verbatim>\<open>sanitize\<close> returns false, and leaves the output as it is, whenever the input
  or the output is of format \<^verbatim>\<open>U8_RGBA\<close>, whatever the dimensions and contents. The
  regeneration network on its own accepts the format: \<^verbatim>\<open>sr_lite_refine\<close> returns true for
  every pair of buffers that pass validation, of any formats (also \<^verbatim>\<open>U8_RGBA\<close>), when the
  output has twice the width and height of the input.
\<close>

theorem sanitize_rejects_rgba:
  "(cpu_type inp = U8_RGBA \<or> cpu_type outp = U8_RGBA \<longrightarrow>
      sanitize std_cos kQuantTableQ50 pool_size inp outp = (False, outp)) \<and>
   sr_supports_type U8_RGBA \<and>
   (validate_image lo \<and> validate_image hi \<and> cpu_width hi = cpu_width lo * 2 \<and>
    cpu_height hi = cpu_height lo * 2 \<longrightarrow> fst (sr_lite_refine pool_size lo hi))"
proof -
  have a: "sanitize std_cos kQuantTableQ50 pool_size inp outp = (False, outp)"
    if "cpu_type inp = U8_RGBA \<or> cpu_type outp = U8_RGBA"
    using that by (auto simp: sanitize_def)
  have b: "fst (sr_lite_refine pool_size lo hi)"
    if "validate_image lo" "validate_image hi" "cpu_width hi = cpu_width lo * 2"
      "cpu_height hi = cpu_height lo * 2"
    using sr_lite_refine_ok [OF that, of pool_size] by auto
  show ?thesis using a b by simp
qed

theorem sanitize_rejects_rgba_witness:
  "sanitize (\<lambda>a. f32 (cos a)) (replicate 64 16) 2
     \<lparr>cpu_type = U8_RGBA, cpu_width = 2, cpu_height = 2, cpu_stride_bytes = 8,
      cpu_data = Some (U8_buffer (replicate 16 9))\<rparr>
     \<lparr>cpu_type = U8_RGB, cpu_width = 2, cpu_height = 2, cpu_stride_bytes = 6,
      cpu_data = Some (U8_buffer (replicate 12 0))\<rparr> =
   (False, \<lparr>cpu_type = U8_RGB, cpu_width = 2, cpu_height = 2, cpu_stride_bytes = 6,
      cpu_data = Some (U8_buffer (replicate 12 0))\<rparr>) \<and>
   fst (sr_lite_refine 2
     \<lparr>cpu_type = U8_RGBA, cpu_width = 1, cpu_height = 1, cpu_stride_bytes = 4,
      cpu_data = Some (U8_buffer [10, 20, 30, 255])\<rparr>
     \<lparr>cpu_type = U8_RGBA, cpu_width = 2, cpu_height = 2, cpu_stride_bytes = 8,
      cpu_data = Some (U8_buffer (replicate 16 0))\<rparr>)"
proof -
  have v: "validate_image \<lparr>cpu_type = U8_RGBA, cpu_width = 1, cpu_height = 1, cpu_stride_bytes = 4,
      cpu_data = Some (U8_buffer [10, 20, 30, 255])\<rparr>"
    "validate_image \<lparr>cpu_type = U8_RGBA, cpu_width = 2, cpu_height = 2, cpu_stride_bytes = 8,
      cpu_data = Some (U8_buffer (replicate 16 0))\<rparr>"
    by (simp_all add: validate_image_def bytes_per_pixel_def row_bytes_def)
  show ?thesis
    using v sanitize_rejects_rgba [of
      "\<lparr>cpu_type = U8_RGBA, cpu_width = 2, cpu_height = 2, cpu_stride_bytes = 8,
        cpu_data = Some (U8_buffer (replicate 16 9))\<rparr>"
      "\<lparr>cpu_type = U8_RGB, cpu_width = 2, cpu_height = 2, cpu_stride_bytes = 6,
        cpu_data = Some (U8_buffer (replicate 12 0))\<rparr>"
      "\<lambda>a. f32 (cos a)" "replicate 64 16" 2
      "\<lparr>cpu_type = U8_RGBA, cpu_width = 1, cpu_height = 1, cpu_stride_bytes = 4,
        cpu_data = Some (U8_buffer [10, 20, 30, 255])\<rparr>"
      "\<lparr>cpu_type = U8_RGBA, cpu_width = 2, cpu_height = 2, cpu_stride_bytes = 8,
        cpu_data = Some (U8_buffer (replicate 16 0))\<rparr>"]
    by simp
qed

end
